theory Spec2Isabelle
  imports Main
begin

section \<open>Values and the object store\<close>

text \<open>
  The engine of \<^verbatim>\<open>src/index.js\<close> builds a nested JavaScript object and stores in it
  values taken from the source record by reference. Objects are therefore kept in an
  explicit store: an address is an index into a list of objects, allocation appends.
  The data is plain data: an object has its own string-keyed properties, kept in the
  order they were added (keys that look like integers are not moved to the front);
  an array is a list, and a hole in it reads as \<open>Undefined\<close>; numbers are integers or
  \<open>NaN\<close>. Prototypes, accessors, frozen objects and function values are not
  represented.
\<close>

type_synonym addr = nat

datatype val = Undefined | Null | Bool bool | Num int | NaN | Str string | Ref addr

datatype hobj = Obj "(string \<times> val) list" | Arr "val list"

type_synonym heap = "hobj list"

text \<open>
  Where a failure comes from: a value thrown (or rejected) by a resolver function of the
  configuration, the \<^verbatim>\<open>Error\<close> the engine raises itself, or a \<^verbatim>\<open>TypeError\<close> of the
  runtime.
\<close>

datatype error = Thrown val | Error string | TypeError string

subsection \<open>Property keys that are array indices\<close>

definition digit :: "char \<Rightarrow> nat option" where
  "digit c = (if c \<in> set ''0123456789'' then Some (of_char c - 48) else None)"

fun digits :: "nat \<Rightarrow> string \<Rightarrow> nat option" where
  "digits acc [] = Some acc"
| "digits acc (c # cs) = (case digit c of None \<Rightarrow> None | Some d \<Rightarrow> digits (10 * acc + d) cs)"

text \<open>The regular expression \<^verbatim>\<open>/^(?:0|[1-9]\d*)$/\<close>, with the number it denotes.\<close>

definition uint_of :: "string \<Rightarrow> nat option" where
  "uint_of k = (if k = [] then None
                else if hd k = CHR ''0'' \<and> tl k \<noteq> [] then None
                else digits 0 k)"

text \<open>\<^verbatim>\<open>isIndex\<close> of lodash: an unsigned integer below \<^verbatim>\<open>MAX_SAFE_INTEGER\<close>, which is \<open>2\<^sup>5\<^sup>3 - 1\<close>.\<close>

definition isIndex :: "string \<Rightarrow> bool" where
  "isIndex k = (case uint_of k of None \<Rightarrow> False | Some n \<Rightarrow> n < 9007199254740991)"

text \<open>A key that addresses an element of an array: an unsigned integer below \<open>2\<^sup>3\<^sup>2 - 1\<close>.\<close>

definition array_index :: "string \<Rightarrow> nat option" where
  "array_index k = (case uint_of k of None \<Rightarrow> None
                    | Some n \<Rightarrow> if n < 4294967295 then Some n else None)"

subsection \<open>Reading and writing properties\<close>

definition lookup :: "(string \<times> val) list \<Rightarrow> string \<Rightarrow> val" where
  "lookup ps k = (case map_of ps k of None \<Rightarrow> Undefined | Some v \<Rightarrow> v)"

definition element :: "val list \<Rightarrow> string \<Rightarrow> val" where
  "element xs k = (case array_index k of
                     Some i \<Rightarrow> if i < length xs then xs ! i else Undefined
                   | None \<Rightarrow> if k = ''length'' then Num (int (length xs)) else Undefined)"

text \<open>\<^verbatim>\<open>object[key]\<close> for the object at address \<open>a\<close>.\<close>

definition own :: "heap \<Rightarrow> addr \<Rightarrow> string \<Rightarrow> val" where
  "own h a k = (if a < length h
                then (case h ! a of Obj ps \<Rightarrow> lookup ps k | Arr xs \<Rightarrow> element xs k)
                else Undefined)"

text \<open>
  \<^verbatim>\<open>value[key]\<close> for any value: reading a property of \<^verbatim>\<open>null\<close> or \<^verbatim>\<open>undefined\<close> throws,
  a string has its characters and its length, the other primitives have no own
  properties.
\<close>

fun member :: "heap \<Rightarrow> val \<Rightarrow> string \<Rightarrow> error + val" where
  "member h Undefined k = Inl (TypeError ''Cannot read properties of undefined'')"
| "member h Null k = Inl (TypeError ''Cannot read properties of null'')"
| "member h (Ref a) k = Inr (own h a k)"
| "member h (Str s) k = Inr (case element (map (\<lambda>c. Str [c]) s) k of
                              Num n \<Rightarrow> Num n | Str c \<Rightarrow> Str c | _ \<Rightarrow> Undefined)"
| "member h v k = Inr Undefined"

fun update :: "(string \<times> val) list \<Rightarrow> string \<Rightarrow> val \<Rightarrow> (string \<times> val) list" where
  "update [] k v = [(k, v)]"
| "update ((k', v') # ps) k v = (if k' = k then (k, v) # ps else (k', v') # update ps k v)"

definition store_element :: "val list \<Rightarrow> nat \<Rightarrow> val \<Rightarrow> val list" where
  "store_element xs i v = (if i < length xs then xs[i := v]
                           else xs @ replicate (i - length xs) Undefined @ [v])"

text \<open>
  \<^verbatim>\<open>object[key] = value\<close> for the object at address \<open>a\<close>. A property of an array whose
  key is not an index is outside the data model: the list stays as it is.
\<close>

definition assign :: "heap \<Rightarrow> addr \<Rightarrow> string \<Rightarrow> val \<Rightarrow> heap" where
  "assign h a k v = (if a < length h
     then h[a := (case h ! a of
                    Obj ps \<Rightarrow> Obj (update ps k v)
                  | Arr xs \<Rightarrow> (case array_index k of
                                Some i \<Rightarrow> Arr (store_element xs i v)
                              | None \<Rightarrow> Arr xs))]
     else h)"

fun isObject :: "val \<Rightarrow> bool" where
  "isObject (Ref a) = True"
| "isObject v = False"

subsection \<open>The imported function \<^verbatim>\<open>set\<close> of lodash\<close>

text \<open>
  \<^verbatim>\<open>import set from 'lodash.set'\<close> is a dependency, not code of the repository. It is
  modelled after lodash's own code: \<^verbatim>\<open>stringToPath\<close> turns the path string into keys,
  and \<^verbatim>\<open>baseSet\<close> follows every key but the last, keeping the value there when it is
  an object and otherwise replacing it by a new container (an array when the next key
  is an index, a plain object if not); the last key is assigned the value.

  \<^verbatim>\<open>stringToPath\<close> collects the matches of a regular expression from left to right.
  A run of characters other than dot and brackets is a key; so is a number in
  brackets, and a quoted string in brackets with its escapes removed; and a dot or an
  empty pair of brackets that is followed by another one, or that ends the string,
  stands for an empty key. A leading dot gives an empty first key. Any other
  character is passed over.
\<close>

definition plain :: "char \<Rightarrow> bool" where
  "plain c = (c \<noteq> CHR ''.'' \<and> c \<noteq> CHR ''['' \<and> c \<noteq> CHR '']'')"

text \<open>The longest run of plain characters at the start of a string, and what follows it.\<close>

fun word :: "string \<Rightarrow> string \<times> string" where
  "word [] = ([], [])"
| "word (c # cs) = (if plain c then (case word cs of (w, r) \<Rightarrow> (c # w, r)) else ([], c # cs))"

definition is_digit :: "char \<Rightarrow> bool" where
  "is_digit c = (c \<in> set ''0123456789'')"

fun digit_run :: "string \<Rightarrow> string \<times> string" where
  "digit_run [] = ([], [])"
| "digit_run (c # cs) =
     (if is_digit c then (case digit_run cs of (w, r) \<Rightarrow> (c # w, r)) else ([], c # cs))"

text \<open>The closing bracket after a key.\<close>

definition close :: "string \<Rightarrow> string \<Rightarrow> (string \<times> string) option" where
  "close key s = (case s of c # r \<Rightarrow> if c = CHR '']'' then Some (key, r) else None | [] \<Rightarrow> None)"

text \<open>
  After an opening bracket: an optional minus sign, digits, optionally a dot and
  digits, and the closing bracket.
\<close>

definition numbered :: "string \<Rightarrow> (string \<times> string) option" where
  "numbered s =
     (let sign = (if s \<noteq> [] \<and> hd s = CHR ''-'' then ''-'' else []);
          r0 = drop (length sign) s;
          ds = fst (digit_run r0); r1 = snd (digit_run r0)
      in if ds = [] then None
         else if r1 \<noteq> [] \<and> hd r1 = CHR ''.''
         then (let fs = fst (digit_run (tl r1)); r2 = snd (digit_run (tl r1))
               in if fs = [] then None else close (sign @ ds @ ''.'' @ fs) r2)
         else close (sign @ ds) r1)"

text \<open>
  The text of a quoted key up to its closing quote \<open>q\<close>: characters other than the
  quote and the backslash, and a backslash with the character after it (not a line
  break). \<open>CHR 0x5C\<close> is the backslash, \<open>CHR 0x22\<close> and \<open>CHR 0x27\<close> are the two quotes.
\<close>

fun content :: "char \<Rightarrow> string \<Rightarrow> (string \<times> string) option" where
  "content q [] = None"
| "content q [c] = (if c = q then Some ([], []) else None)"
| "content q (c # d # ds) =
     (if c = q then Some ([], d # ds)
      else if c = CHR 0x5C
      then (if d = CHR 0x0A \<or> d = CHR 0x0D then None
            else map_option (\<lambda>(w, r). (c # d # w, r)) (content q ds))
      else map_option (\<lambda>(w, r). (c # w, r)) (content q (d # ds)))"

text \<open>The escapes removed: a backslash goes, a doubled one leaves one.\<close>

fun unescape :: "string \<Rightarrow> string" where
  "unescape [] = []"
| "unescape [c] = (if c = CHR 0x5C then [] else [c])"
| "unescape (c # d # ds) =
     (if c = CHR 0x5C then (if d = CHR 0x5C then d # unescape ds else unescape (d # ds))
      else c # unescape (d # ds))"

definition quoted :: "string \<Rightarrow> (string \<times> string) option" where
  "quoted s =
     (case s of
        q # r \<Rightarrow>
          if q = CHR 0x22 \<or> q = CHR 0x27
          then (case content q r of
                  Some (raw, r') \<Rightarrow> close (unescape raw) r'
                | None \<Rightarrow> None)
          else None
      | [] \<Rightarrow> None)"

text \<open>The key in brackets, after the opening bracket, and what follows the closing one.\<close>

definition bracketed :: "string \<Rightarrow> (string \<times> string) option" where
  "bracketed s = (case numbered s of Some r \<Rightarrow> Some r | None \<Rightarrow> quoted s)"

text \<open>
  The look-ahead for an empty key: a dot or an empty pair of brackets, followed by
  another one or by the end of the string.
\<close>

fun separator :: "string \<Rightarrow> string option" where
  "separator [] = None"
| "separator [c] = (if c = CHR ''.'' then Some [] else None)"
| "separator (c # d # r) =
     (if c = CHR ''.'' then Some (d # r)
      else if c = CHR ''['' \<and> d = CHR '']'' then Some r else None)"

definition empty_key :: "string \<Rightarrow> bool" where
  "empty_key s = (case separator s of None \<Rightarrow> False | Some r \<Rightarrow> r = [] \<or> separator r \<noteq> None)"

text \<open>
  The matches from a position on. After a match the search goes on behind it; after an
  empty match, and where nothing matches, one character further.
\<close>

function scan :: "string \<Rightarrow> string list" where
  "scan [] = []"
| "scan (c # cs) =
     (if plain c then (case word (c # cs) of (w, rest) \<Rightarrow> w # scan rest)
      else (case (if c = CHR ''['' then bracketed cs else None) of
              Some (key, rest) \<Rightarrow> key # scan rest
            | None \<Rightarrow> if empty_key (c # cs) then [] # scan cs else scan cs))"
  by pat_completeness auto
termination
proof -
  have word_length: "length (snd (word s)) \<le> length s" for s
    by (induction s) (auto split: prod.splits)
  have word_shorter: "length r < Suc (length cs)" if "word cs = (w, r)" for cs w r
    using word_length [of cs] that by simp
  have digit_run_length: "length (snd (digit_run s)) \<le> length s" for s
    by (induction s) (auto split: prod.splits)
  have close_length: "length r < length s" if "close key s = Some (k, r)" for key s k r
    using that by (auto simp: close_def split: list.splits if_splits)
  have numbered_length: "length r < length s" if a: "numbered s = Some (k, r)" for s k r
  proof -
    let ?sign = "if s \<noteq> [] \<and> hd s = CHR ''-'' then ''-'' else []"
    let ?r0 = "drop (length ?sign) s"
    have r0: "length ?r0 \<le> length s"
      by simp
    have r1: "length (snd (digit_run ?r0)) \<le> length s"
      using digit_run_length [of ?r0] r0 by linarith
    have r2: "length (snd (digit_run (tl (snd (digit_run ?r0))))) \<le> length s"
      using digit_run_length [of "tl (snd (digit_run ?r0))"] r1 by simp
    show ?thesis
      using a r1 r2 unfolding numbered_def Let_def
      by (auto split: if_splits dest!: close_length)
  qed
  have content_length: "length r < length s" if "content q s = Some (w, r)" for q s w r
    using that by (induction q s arbitrary: w r rule: content.induct) (auto split: if_splits)
  have quoted_length: "length r < length s" if "quoted s = Some (k, r)" for s k r
    using that
    by (auto simp: quoted_def split: list.splits if_splits option.splits
        dest!: close_length content_length)
  have bracketed_length: "length r < length s" if "bracketed s = Some (k, r)" for s k r
    using that
    by (auto simp: bracketed_def split: option.splits dest: numbered_length quoted_length)
  show ?thesis
    by (relation "measure length")
       (auto split: prod.splits if_splits dest: word_shorter bracketed_length)
qed

definition stringToPath :: "string \<Rightarrow> string list" where
  "stringToPath s = (if s \<noteq> [] \<and> hd s = CHR ''.'' then [Nil] else []) @ scan s"

text \<open>The container made for a missing step: \<^verbatim>\<open>isIndex(path[index + 1]) ? [] : {}\<close>.\<close>

definition container :: "string \<Rightarrow> hobj" where
  "container next_key = (if isIndex next_key then Arr [] else Obj [])"

fun baseSet :: "heap \<Rightarrow> addr \<Rightarrow> string list \<Rightarrow> val \<Rightarrow> heap" where
  "baseSet h a [] v = h"
| "baseSet h a [k] v = assign h a k v"
| "baseSet h a (k # k' # ks) v =
     (case own h a k of
        Ref b \<Rightarrow> baseSet h b (k' # ks) v
      | _ \<Rightarrow> let b = length h;
                 h' = assign (h @ [container k']) a k (Ref b)
             in baseSet h' b (k' # ks) v)"

definition lodash_set :: "heap \<Rightarrow> addr \<Rightarrow> string \<Rightarrow> val \<Rightarrow> heap" where
  "lodash_set h object path v = baseSet h object (stringToPath path) v"

section \<open>The mapping configuration\<close>

text \<open>
  A source instruction is a string naming a key of the source record, or a function of
  the source record. What the call of such a function and the \<^verbatim>\<open>await\<close> on its result
  give is one of: the call throws; the awaited value arrives, or the awaited promise
  rejects, after some number of further turns of the job queue; the promise never
  settles. A resolver function reads the store as it is when it is called and changes
  nothing in it.
\<close>

datatype awaited = Throws val | Fulfils nat val | Rejects nat val | Pends

datatype instruction = Field string | Resolver "heap \<Rightarrow> val \<Rightarrow> awaited"

text \<open>
  A section is the list \<^verbatim>\<open>Object.entries\<close> returns for it; the configuration maps
  section names to sections.
\<close>

type_synonym entries = "(string \<times> instruction) list"

type_synonym mapping = "(string \<times> entries) list"

section \<open>The transform engine\<close>

text \<open>
  The state of one call of \<^verbatim>\<open>transform\<close>: the store; the awaits that have not resumed
  yet, in the order they were started, each with the turn at which it resumes, its
  section and destination key, and the value or the rejection it resumes with; the
  failures of the per-entry promises in the order they happened; whether some promise
  never settles; and the calls of resolver functions made so far, each by the section
  and destination key of its entry.
\<close>

record run =
  store :: heap
  waiting :: "(nat \<times> string \<times> string \<times> (val + val)) list"
  failures :: "error list"
  stuck :: bool
  called :: "(string \<times> string) list"

definition fail :: "error \<Rightarrow> run \<Rightarrow> run" where
  "fail e s = s\<lparr>failures := failures s @ [e]\<rparr>"

definition destinationPath :: "string \<Rightarrow> string \<Rightarrow> string" where
  "destinationPath section magentoPath =
     ''product.'' @ (if section = ''extensionAttributes'' then ''extension_attributes.'' else [])
       @ magentoPath"

text \<open>
  \<^verbatim>\<open>magentoPayload.product.custom_attributes.push({attribute_code, value})\<close>: a
  \<^verbatim>\<open>TypeError\<close> unless \<^verbatim>\<open>custom_attributes\<close> holds an array.
\<close>

definition push_attribute :: "heap \<Rightarrow> addr \<Rightarrow> string \<Rightarrow> val \<Rightarrow> error + heap" where
  "push_attribute h payload code v =
     (case member h (own h payload ''product'') ''custom_attributes'' of
        Inl e \<Rightarrow> Inl e
      | Inr (Ref a) \<Rightarrow>
          (if a < length h
           then (case h ! a of
                   Arr xs \<Rightarrow>
                     Inr ((h @ [Obj [(''attribute_code'', Str code), (''value'', v)]])
                            [a := Arr (xs @ [Ref (length h)])])
                 | Obj ps \<Rightarrow> Inl (TypeError ''push is not a function''))
           else Inl (TypeError ''push is not a function''))
      | Inr Undefined \<Rightarrow> Inl (TypeError ''Cannot read properties of undefined'')
      | Inr Null \<Rightarrow> Inl (TypeError ''Cannot read properties of null'')
      | Inr _ \<Rightarrow> Inl (TypeError ''push is not a function''))"

text \<open>Lines 35 to 47: what one entry does with its resolved value.\<close>

definition commit :: "addr \<Rightarrow> string \<Rightarrow> string \<Rightarrow> val \<Rightarrow> run \<Rightarrow> run" where
  "commit payload section magentoPath v s =
     (if v = Null \<or> v = Undefined then s
      else if section = ''customAttributes''
      then (case push_attribute (store s) payload magentoPath v of
              Inl e \<Rightarrow> fail e s
            | Inr h' \<Rightarrow> s\<lparr>store := h'\<rparr>)
      else s\<lparr>store := lodash_set (store s) payload (destinationPath section magentoPath) v\<rparr>)"

text \<open>
  Lines 28 to 33: the value of one entry. A field reference is read at once (there is
  no \<^verbatim>\<open>await\<close> on that branch); a resolver function is called at once and its result
  awaited, so that the rest of the entry's asynchronous function runs at a later turn,
  or never.
\<close>

datatype resolution = Now "error + val" | Later nat "val + val" | Never

fun resolve :: "heap \<Rightarrow> val \<Rightarrow> instruction \<Rightarrow> resolution" where
  "resolve h src (Field name) = Now (member h src name)"
| "resolve h src (Resolver f) =
     (case f h src of
        Throws x \<Rightarrow> Now (Inl (Thrown x))
      | Fulfils n v \<Rightarrow> Later (Suc n) (Inr v)
      | Rejects n x \<Rightarrow> Later (Suc n) (Inl x)
      | Pends \<Rightarrow> Never)"

text \<open>
  Lines 27 to 50: the asynchronous function of one entry runs, when it is created, up
  to its first \<^verbatim>\<open>await\<close>: a field reference is committed in the loop itself, the
  continuation of a resolver function waits. Line 30 is the only call of a resolver
  function; it is recorded.
\<close>

fun note_call :: "string \<Rightarrow> string \<Rightarrow> instruction \<Rightarrow> run \<Rightarrow> run" where
  "note_call section magentoPath (Field name) s = s"
| "note_call section magentoPath (Resolver f) s =
     s\<lparr>called := called s @ [(section, magentoPath)]\<rparr>"

fun start :: "addr \<Rightarrow> val \<Rightarrow> run \<Rightarrow> string \<times> string \<times> instruction \<Rightarrow> run" where
  "start payload src s (section, magentoPath, sourceInstruction) =
     (case resolve (store s) src sourceInstruction of
        Now (Inl e) \<Rightarrow> fail e (note_call section magentoPath sourceInstruction s)
      | Now (Inr v) \<Rightarrow>
          commit payload section magentoPath v (note_call section magentoPath sourceInstruction s)
      | Later t r \<Rightarrow>
          (note_call section magentoPath sourceInstruction s)
            \<lparr>waiting := waiting s @ [(t, section, magentoPath, r)]\<rparr>
      | Never \<Rightarrow> (note_call section magentoPath sourceInstruction s)\<lparr>stuck := True\<rparr>)"

text \<open>The rest of the asynchronous function, after its \<^verbatim>\<open>await\<close>.\<close>

fun resume :: "addr \<Rightarrow> run \<Rightarrow> nat \<times> string \<times> string \<times> (val + val) \<Rightarrow> run" where
  "resume payload s (t, section, magentoPath, Inl x) = fail (Thrown x) s"
| "resume payload s (t, section, magentoPath, Inr v) = commit payload section magentoPath v s"

text \<open>
  Line 21 and line 25: the three section names, fixed, and for each the entries of
  \<^verbatim>\<open>this.mapping[section] || {}\<close>.
\<close>

definition sections :: "string list" where
  "sections = [''core'', ''extensionAttributes'', ''customAttributes'']"

definition section_entries :: "mapping \<Rightarrow> string \<Rightarrow> entries" where
  "section_entries m section = (case map_of m section of None \<Rightarrow> [] | Some es \<Rightarrow> es)"

definition tasks :: "mapping \<Rightarrow> (string \<times> string \<times> instruction) list" where
  "tasks m = concat (map (\<lambda>section. map (\<lambda>(magentoPath, sourceInstruction).
                 (section, magentoPath, sourceInstruction)) (section_entries m section)) sections)"

text \<open>
  Lines 24 to 54: the two loops start every entry in order; then the job queue runs the
  waiting continuations, earlier turns first and, within a turn, in the order they
  were started.
\<close>

definition run_tasks :: "addr \<Rightarrow> val \<Rightarrow> run \<Rightarrow> (string \<times> string \<times> instruction) list \<Rightarrow> run" where
  "run_tasks payload src s ts =
     (let s1 = foldl (start payload src) s ts
      in foldl (resume payload) (s1\<lparr>waiting := []\<rparr>) (sort_key fst (waiting s1)))"

datatype outcome = Returned val | Failed error | NeverSettles

definition truthy :: "val \<Rightarrow> bool" where
  "truthy v = (v \<noteq> Undefined \<and> v \<noteq> Null \<and> v \<noteq> Bool False \<and> v \<noteq> Num 0 \<and> v \<noteq> NaN \<and> v \<noteq> Str [])"

definition sku_error :: error where
  "sku_error = Error ''Mapping failed to generate a SKU for the product.''"

text \<open>Lines 15 to 19: the payload, allocated at the end of the store.\<close>

definition new_payload :: "heap \<Rightarrow> heap" where
  "new_payload h = h @ [Arr [], Obj [(''custom_attributes'', Ref (length h))],
                        Obj [(''product'', Ref (Suc (length h)))]]"

definition payload_of :: "heap \<Rightarrow> addr" where
  "payload_of h = length h + 2"

definition initial :: "heap \<Rightarrow> run" where
  "initial h = \<lparr>store = new_payload h, waiting = [], failures = [], stuck = False,
                 called = []\<rparr>"

definition assemble :: "mapping \<Rightarrow> heap \<Rightarrow> val \<Rightarrow> run" where
  "assemble m h src = run_tasks (payload_of h) src (initial h) (tasks m)"

text \<open>
  Lines 54 to 60: \<^verbatim>\<open>Promise.all\<close> rejects with the first failure; it never settles when
  nothing fails and some promise never settles; otherwise the SKU is checked and the
  payload returned. The store returned is the one left when every continuation that
  can run has run.
\<close>

definition finish :: "addr \<Rightarrow> run \<Rightarrow> outcome" where
  "finish payload s =
     (case failures s of
        e # _ \<Rightarrow> Failed e
      | [] \<Rightarrow> if stuck s then NeverSettles
              else (case member (store s) (own (store s) payload ''product'') ''sku'' of
                      Inl e \<Rightarrow> Failed e
                    | Inr sku \<Rightarrow> if \<not> truthy sku then Failed sku_error
                                 else Returned (Ref payload)))"

definition transform :: "mapping \<Rightarrow> heap \<Rightarrow> val \<Rightarrow> outcome \<times> heap" where
  "transform m h src =
     (let s = assemble m h src in (finish (payload_of h) s, store s))"

section \<open>Observing the output\<close>

text \<open>
  The structure reachable from a value, as a tree: what a deep comparison or a
  serialisation of the output sees. The first argument bounds the depth; \<open>None\<close> when
  it is exceeded, as on a cyclic structure, or when a reference dangles.
\<close>

datatype tree = Prim val | TObj "(string \<times> tree) list" | TArr "tree list"

fun snapshot :: "nat \<Rightarrow> heap \<Rightarrow> val \<Rightarrow> tree option" where
  "snapshot 0 h v = (case v of Ref a \<Rightarrow> None | _ \<Rightarrow> Some (Prim v))"
| "snapshot (Suc n) h v =
     (case v of
        Ref a \<Rightarrow>
          (if a < length h
           then (case h ! a of
                   Obj ps \<Rightarrow> map_option TObj
                     (those (map (\<lambda>(k, x). map_option (Pair k) (snapshot n h x)) ps))
                 | Arr xs \<Rightarrow> map_option TArr (those (map (snapshot n h) xs)))
           else None)
      | _ \<Rightarrow> Some (Prim v))"

text \<open>\<^verbatim>\<open>magentoPayload.product.sku\<close>, as line 56 reads it.\<close>

definition sku_of :: "addr \<Rightarrow> heap \<Rightarrow> error + val" where
  "sku_of payload h = member h (own h payload ''product'') ''sku''"

text \<open>A failure of one entry's promise: anything but the engine's own \<^verbatim>\<open>Error\<close>.\<close>

fun entry_failure :: "error \<Rightarrow> bool" where
  "entry_failure (Error msg) = False"
| "entry_failure e = True"

text \<open>
  The state of the call as an entry finds it when the loop starts it: the one left by
  the entries started before it; its store is the store the entry finds.
\<close>

definition run_at :: "heap \<Rightarrow> val \<Rightarrow> (string \<times> string \<times> instruction) list \<Rightarrow> run" where
  "run_at h src before = foldl (start (payload_of h) src) (initial h) before"

definition store_at :: "heap \<Rightarrow> val \<Rightarrow> (string \<times> string \<times> instruction) list \<Rightarrow> heap" where
  "store_at h src before = store (foldl (start (payload_of h) src) (initial h) before)"

text \<open>The entries with a resolver function, by section and destination key.\<close>

fun resolver_entry :: "string \<times> string \<times> instruction \<Rightarrow> (string \<times> string) list" where
  "resolver_entry (section, magentoPath, Resolver f) = [(section, magentoPath)]"
| "resolver_entry (section, magentoPath, Field name) = []"

text \<open>Line 35: the values an entry drops.\<close>

definition absent :: "val \<Rightarrow> bool" where
  "absent v = (v = Null \<or> v = Undefined)"

fun resolves_absent :: "resolution \<Rightarrow> bool" where
  "resolves_absent (Now (Inr v)) = absent v"
| "resolves_absent (Later t (Inr v)) = absent v"
| "resolves_absent r = False"

text \<open>A waiting continuation that will resume with a value.\<close>

fun live :: "nat \<times> string \<times> string \<times> (val + val) \<Rightarrow> bool" where
  "live (t, section, magentoPath, Inr v) = (\<not> absent v)"
| "live (t, section, magentoPath, Inl x) = True"

text \<open>Two states of a call that differ only in continuations that will drop their value.\<close>

definition alike :: "run \<Rightarrow> run \<Rightarrow> bool" where
  "alike s s' = (store s = store s' \<and> failures s = failures s' \<and> stuck s = stuck s'
                 \<and> filter live (waiting s) = filter live (waiting s'))"

section \<open>Paths in the store\<close>

text \<open>Reading the keys of a path one after the other, as \<^verbatim>\<open>value.a.b.c\<close> does on objects.\<close>

fun get_path :: "heap \<Rightarrow> val \<Rightarrow> string list \<Rightarrow> val" where
  "get_path h v [] = v"
| "get_path h v (k # ks) = (case v of Ref a \<Rightarrow> get_path h (own h a k) ks | _ \<Rightarrow> Undefined)"



text \<open>
  The model reads and writes own properties. In JavaScript \<^verbatim>\<open>object[key]\<close> also finds
  what the object inherits, and lodash follows such a value like any other: a path
  through \<^verbatim>\<open>__proto__\<close> or \<^verbatim>\<open>constructor\<close> reaches objects that all objects share. These
  are the names that plain objects and arrays inherit (ECMAScript 2023); what is
  proved about a walk of \<^verbatim>\<open>set\<close> is proved for paths that use none of them.
\<close>

definition object_prototype_keys :: "string list" where
  "object_prototype_keys =
     [''constructor'', ''__defineGetter__'', ''__defineSetter__'', ''hasOwnProperty'',
      ''__lookupGetter__'', ''__lookupSetter__'', ''isPrototypeOf'', ''propertyIsEnumerable'',
      ''toString'', ''valueOf'', ''__proto__'', ''toLocaleString'']"

definition array_prototype_keys :: "string list" where
  "array_prototype_keys =
     [''at'', ''concat'', ''copyWithin'', ''entries'', ''every'', ''fill'', ''filter'', ''find'',
      ''findIndex'', ''findLast'', ''findLastIndex'', ''flat'', ''flatMap'', ''forEach'',
      ''includes'', ''indexOf'', ''join'', ''keys'', ''lastIndexOf'', ''map'', ''pop'', ''push'',
      ''reduce'', ''reduceRight'', ''reverse'', ''shift'', ''slice'', ''some'', ''sort'',
      ''splice'', ''toReversed'', ''toSorted'', ''toSpliced'', ''unshift'', ''values'', ''with'']"

definition inherited :: "string \<Rightarrow> bool" where
  "inherited k = (k \<in> set (object_prototype_keys @ array_prototype_keys))"







section \<open>Separation of the payload from the rest of the store\<close>

text \<open>The values an object holds.\<close>

fun vals :: "hobj \<Rightarrow> val list" where
  "vals (Obj ps) = map snd ps"
| "vals (Arr xs) = xs"

text \<open>
  A value fits a store of \<open>n\<close> objects and a set \<open>X\<close> of guarded addresses when it is
  not a reference, or refers to an existing object that is not guarded. A store is
  sealed around \<open>X\<close> when the objects outside \<open>X\<close> hold only such values.
\<close>

definition fits :: "nat \<Rightarrow> addr set \<Rightarrow> val \<Rightarrow> bool" where
  "fits n X v = (case v of Ref c \<Rightarrow> c < n \<and> c \<notin> X | _ \<Rightarrow> True)"

definition sealed :: "addr set \<Rightarrow> heap \<Rightarrow> bool" where
  "sealed X h = (\<forall>b < length h. b \<notin> X \<longrightarrow> list_all (fits (length h) X) (vals (h ! b)))"

text \<open>A store in which no reference dangles, and a value that refers into it.\<close>

definition closed :: "heap \<Rightarrow> bool" where
  "closed h = list_all (\<lambda>ob. list_all (fits (length h) {}) (vals ob)) h"

text \<open>The record line 40 pushes.\<close>

definition attribute_record :: "string \<times> val \<Rightarrow> hobj" where
  "attribute_record kv = Obj [(''attribute_code'', Str (fst kv)), (''value'', snd kv)]"

text \<open>
  The payload allocated at address \<open>A\<close>, \<open>A + 1\<close> and \<open>A + 2\<close> (list, product, root)
  with the records at the addresses \<open>es\<close> pushed for the attributes \<open>L\<close>: the list holds
  exactly these records, the product still holds the list, and nothing outside the
  payload refers to the list, the records, the product or the root.
\<close>

definition guarded :: "addr \<Rightarrow> addr list \<Rightarrow> addr set" where
  "guarded A es = {A, A + 1, A + 2} \<union> set es"

definition payload_inv :: "addr \<Rightarrow> addr list \<Rightarrow> heap \<Rightarrow> (string \<times> val) list \<Rightarrow> bool" where
  "payload_inv A es H L =
     (A + 2 < length H \<and> H ! A = Arr (map Ref es) \<and> map ((!) H) es = map attribute_record L
      \<and> distinct es \<and> (\<forall>e \<in> set es. A + 2 < e \<and> e < length H)
      \<and> H ! (A + 2) = Obj [(''product'', Ref (A + 1))]
      \<and> (\<exists>ps. H ! (A + 1) = Obj ps \<and> lookup ps ''custom_attributes'' = Ref A
              \<and> (\<forall>(j, x) \<in> set ps. j \<noteq> ''custom_attributes'' \<longrightarrow> fits (length H) (guarded A es) x))
      \<and> sealed (guarded A es) H)"

section \<open>The attributes an entry contributes\<close>

text \<open>
  What each entry resolves to, in the order of the loop, each on the store it finds
  when the loop starts it.
\<close>

fun resolutions :: "addr \<Rightarrow> val \<Rightarrow> run \<Rightarrow> (string \<times> string \<times> instruction) list
    \<Rightarrow> (string \<times> string \<times> resolution) list" where
  "resolutions payload src s [] = []"
| "resolutions payload src s ((section, magentoPath, sourceInstruction) # ts) =
     (section, magentoPath, resolve (store s) src sourceInstruction)
       # resolutions payload src (start payload src s (section, magentoPath, sourceInstruction)) ts"

text \<open>The attribute an entry of a section commits for a value: one for the flat section, if the value is not dropped.\<close>

definition attribute :: "string \<Rightarrow> string \<Rightarrow> val \<Rightarrow> (string \<times> val) list" where
  "attribute section code v =
     (if section = ''customAttributes'' \<and> \<not> absent v then [(code, v)] else [])"

text \<open>The attributes committed in the loop itself, and the ones committed by a continuation.\<close>

fun committed_now :: "string \<times> string \<times> resolution \<Rightarrow> (string \<times> val) list" where
  "committed_now (section, code, Now (Inr v)) = attribute section code v"
| "committed_now (section, code, r) = []"

fun committed_later :: "nat \<times> string \<times> string \<times> (val + val) \<Rightarrow> (string \<times> val) list" where
  "committed_later (t, section, code, Inr v) = attribute section code v"
| "committed_later (t, section, code, Inl x) = []"

text \<open>The continuations the loop leaves waiting, from the resolutions.\<close>

fun awaiting :: "string \<times> string \<times> resolution \<Rightarrow> (nat \<times> string \<times> string \<times> (val + val)) list" where
  "awaiting (section, code, Later t r) = [(t, section, code, r)]"
| "awaiting (section, code, r) = []"

text \<open>The keys of the path line 45 builds for an entry.\<close>

definition path_of :: "string \<Rightarrow> string \<Rightarrow> string list" where
  "path_of section magentoPath = stringToPath (destinationPath section magentoPath)"

text \<open>
  A destination key that leaves the list of attributes alone: any key of the flat
  section, and a key of another section whose path goes on after \<^verbatim>\<open>product\<close> with a
  key other than \<^verbatim>\<open>custom_attributes\<close>.
\<close>

definition key_ok :: "string \<Rightarrow> string \<Rightarrow> bool" where
  "key_ok section magentoPath =
     (section = ''customAttributes''
      \<or> (case path_of section magentoPath of
            p # k # rest \<Rightarrow> p = ''product'' \<and> k \<noteq> ''custom_attributes''
          | _ \<Rightarrow> False))"

text \<open>
  An entry that stays inside the data model: no key of the path it writes to is the
  name of an inherited property or \<^verbatim>\<open>length\<close> (assigning the length of an array resizes
  it, or throws), and the key it reads from the source record is not the name of an
  inherited property (which would give the inherited function). The flat section
  writes to no path.
\<close>

fun ordinary :: "string \<times> string \<times> instruction \<Rightarrow> bool" where
  "ordinary (section, magentoPath, sourceInstruction) =
     ((section = ''customAttributes''
       \<or> list_all (\<lambda>key. \<not> inherited key \<and> key \<noteq> ''length'') (path_of section magentoPath))
      \<and> (case sourceInstruction of Field name \<Rightarrow> \<not> inherited name | Resolver f \<Rightarrow> True))"

text \<open>
  A resolver function whose values are primitive or refer to objects that were in the
  store before the call.
\<close>

fun resolver_ok :: "nat \<Rightarrow> val \<Rightarrow> instruction \<Rightarrow> bool" where
  "resolver_ok A src (Field name) = True"
| "resolver_ok A src (Resolver f) = (\<forall>H n v. f H src = Fulfils n v \<longrightarrow> fits A {} v)"

fun item_ok :: "nat \<Rightarrow> nat \<times> string \<times> string \<times> (val + val) \<Rightarrow> bool" where
  "item_ok A (t, section, magentoPath, Inr v) = (key_ok section magentoPath \<and> fits A {} v)"
| "item_ok A (t, section, magentoPath, Inl x) = True"

definition run_inv :: "nat \<Rightarrow> run \<Rightarrow> (string \<times> val) list \<Rightarrow> bool" where
  "run_inv A s L = ((\<exists>es. payload_inv A es (store s) L) \<and> list_all (item_ok A) (waiting s))"

text \<open>
  The attributes of a call in the order they are committed: those of the entries whose
  value is there in the loop (the field references), in the order of the loop, and
  those of the awaited entries, by the turn at which they resume and, within a turn,
  in the order of the loop.
\<close>

definition attributes_in_loop :: "mapping \<Rightarrow> heap \<Rightarrow> val \<Rightarrow> (string \<times> val) list" where
  "attributes_in_loop m h src =
     concat (map committed_now (resolutions (payload_of h) src (initial h) (tasks m)))"

definition attributes_awaited :: "mapping \<Rightarrow> heap \<Rightarrow> val \<Rightarrow> (string \<times> val) list" where
  "attributes_awaited m h src =
     concat (map committed_later (sort_key fst
       (concat (map awaiting (resolutions (payload_of h) src (initial h) (tasks m))))))"

text \<open>
  The objects in the list at \<^verbatim>\<open>product.custom_attributes\<close> of a payload; \<open>None\<close> when
  there is no list there, and for an element that is not an object.
\<close>

definition attribute_list :: "heap \<Rightarrow> addr \<Rightarrow> hobj option list option" where
  "attribute_list H payload =
     (case get_path H (Ref payload) [''product'', ''custom_attributes''] of
        Ref a \<Rightarrow>
          (if a < length H
           then (case H ! a of
                   Arr xs \<Rightarrow> Some (map (\<lambda>x. case x of
                                          Ref e \<Rightarrow> if e < length H then Some (H ! e) else None
                                        | _ \<Rightarrow> None) xs)
                 | Obj ps \<Rightarrow> None)
           else None)
      | _ \<Rightarrow> None)"

section \<open>Properties\<close>

lemmas engine_defs = transform_def assemble_def initial_def run_tasks_def tasks_def sections_def
  section_entries_def finish_def new_payload_def payload_of_def commit_def lodash_set_def
  destinationPath_def push_attribute_def fail_def own_def lookup_def assign_def truthy_def
  sku_error_def element_def array_index_def uint_of_def isIndex_def container_def digit_def
  store_element_def stringToPath_def plain_def empty_key_def

subsection \<open>Recording a call changes nothing else\<close>

lemma note_call_store [simp]: "store (note_call sec k i s) = store s"
  by (cases i) simp_all

lemma note_call_waiting [simp]: "waiting (note_call sec k i s) = waiting s"
  by (cases i) simp_all

lemma note_call_failures [simp]: "failures (note_call sec k i s) = failures s"
  by (cases i) simp_all

lemma note_call_stuck [simp]: "stuck (note_call sec k i s) = stuck s"
  by (cases i) simp_all

lemma note_call_called: "called (note_call sec k i s) = called s @ resolver_entry (sec, k, i)"
  by (cases i) simp_all

subsection \<open>The smallest configuration\<close>

text \<open>
  C7. With the configuration \<^verbatim>\<open>{ core: { sku: 'id' } }\<close> and a source record
  \<^verbatim>\<open>{ id: 'X1' }\<close>, anywhere in any store, \<^verbatim>\<open>transform\<close> returns the new payload, and
  what is reachable from it is exactly
  \<^verbatim>\<open>{ product: { custom_attributes: [], sku: 'X1' } }\<close>: the core entry directly under
  the one root key, the list of attributes present and empty. (Properties are listed
  in insertion order; the list was there before the SKU.)
\<close>

theorem transform_sku_only:
  assumes "a < length h" and "h ! a = Obj [(''id'', Str ''X1'')]"
  shows "fst (transform [(''core'', [(''sku'', Field ''id'')])] h (Ref a))
           = Returned (Ref (length h + 2))
       \<and> snapshot 3 (snd (transform [(''core'', [(''sku'', Field ''id'')])] h (Ref a)))
             (Ref (length h + 2))
           = Some (TObj [(''product'',
                TObj [(''custom_attributes'', TArr []), (''sku'', Prim (Str ''X1''))])])"
proof -
  have "transform [(''core'', [(''sku'', Field ''id'')])] h (Ref a) =
     (Returned (Ref (length h + 2)),
      h @ [Arr [], Obj [(''custom_attributes'', Ref (length h)), (''sku'', Str ''X1'')],
           Obj [(''product'', Ref (Suc (length h)))]])"
    using assms by (simp add: engine_defs nth_append list_update_append)
  then show ?thesis
    by (simp add: eval_nat_numeral nth_append)
qed

theorem transform_sku_only_witness:
  "fst (transform [(''core'', [(''sku'', Field ''id'')])] [Obj [(''id'', Str ''X1'')]] (Ref 0))
     = Returned (Ref 3)
   \<and> snapshot 3 (snd (transform [(''core'', [(''sku'', Field ''id'')])]
                        [Obj [(''id'', Str ''X1'')]] (Ref 0))) (Ref 3)
     = Some (TObj [(''product'',
          TObj [(''custom_attributes'', TArr []), (''sku'', Prim (Str ''X1''))])])"
  using transform_sku_only [of 0 "[Obj [(''id'', Str ''X1'')]]"] by (simp add: numeral_3_eq_3)

subsection \<open>Which sections are processed\<close>

lemma tasks_cong:
  assumes "\<forall>n \<in> set sections. map_of m n = map_of m' n"
  shows "tasks m = tasks m'"
  using assms by (simp add: tasks_def sections_def section_entries_def)

lemma transform_tasks:
  "tasks m = tasks m' \<Longrightarrow> transform m h src = transform m' h src"
  by (simp add: transform_def assemble_def)

text \<open>
  C4, as stated, fails: a section the configuration declares under another name is not
  processed. The entry \<^verbatim>\<open>sku: 'id'\<close> under a section \<^verbatim>\<open>identifiers\<close> contributes nothing:
  the call does what it does for the empty configuration and fails for want of a SKU,
  while the same entry under \<^verbatim>\<open>core\<close> is processed.
\<close>

theorem undeclared_section_ignored:
  "transform [(''identifiers'', [(''sku'', Field ''id'')])] [Obj [(''id'', Str ''X1'')]] (Ref 0)
     = transform [] [Obj [(''id'', Str ''X1'')]] (Ref 0)
   \<and> fst (transform [(''identifiers'', [(''sku'', Field ''id'')])]
            [Obj [(''id'', Str ''X1'')]] (Ref 0)) = Failed sku_error
   \<and> fst (transform [(''core'', [(''sku'', Field ''id'')])]
            [Obj [(''id'', Str ''X1'')]] (Ref 0)) = Returned (Ref 3)"
  by (simp add: engine_defs numeral_3_eq_3)

text \<open>
  C4, amended: the engine processes exactly the sections named \<^verbatim>\<open>core\<close>,
  \<^verbatim>\<open>extensionAttributes\<close> and \<^verbatim>\<open>customAttributes\<close>, in this fixed order. Two
  configurations that agree on these three sections are transformed alike, whatever
  else they declare and in whatever order they declare it.
\<close>

theorem transform_reference_sections_only:
  assumes "\<forall>n \<in> set sections. map_of m n = map_of m' n"
  shows "transform m h src = transform m' h src
       \<and> tasks m = map (\<lambda>(k, i). (''core'', k, i)) (section_entries m ''core'')
                 @ map (\<lambda>(k, i). (''extensionAttributes'', k, i))
                     (section_entries m ''extensionAttributes'')
                 @ map (\<lambda>(k, i). (''customAttributes'', k, i))
                     (section_entries m ''customAttributes'')"
  using transform_tasks [OF tasks_cong [OF assms], of h src]
  by (simp add: tasks_def sections_def)

theorem transform_reference_sections_only_witness:
  "transform [(''customAttributes'', [(''color'', Field ''c'')]),
              (''identifiers'', [(''sku'', Field ''c'')]),
              (''core'', [(''sku'', Field ''id'')])] [] (Ref 0)
     = transform [(''core'', [(''sku'', Field ''id'')]),
                  (''customAttributes'', [(''color'', Field ''c'')])] [] (Ref 0)"
proof -
  have h: "\<forall>n \<in> set sections.
      map_of [(''customAttributes'', [(''color'', Field ''c'')]),
              (''identifiers'', [(''sku'', Field ''c'')]),
              (''core'', [(''sku'', Field ''id'')])] n
      = map_of [(''core'', [(''sku'', Field ''id'')]),
                (''customAttributes'', [(''color'', Field ''c'')])] n"
    by (simp add: sections_def)
  show ?thesis
    using transform_reference_sections_only [OF h, of "[]" "Ref 0"] by simp
qed

subsection \<open>Missing sections\<close>

text \<open>
  C10, as stated, fails: a configuration without the \<^verbatim>\<open>core\<close> section is not turned
  into an output. The missing section is read as empty, no SKU is written, and the
  call fails with the SKU error: nothing is returned.
\<close>

theorem missing_core_fails:
  "fst (transform [(''customAttributes'', [(''color'', Field ''c'')])]
          [Obj [(''c'', Str ''red'')]] (Ref 0)) = Failed sku_error"
  by (simp add: engine_defs nth_append)

text \<open>
  C10, amended: a section that is missing from the configuration is read as an empty
  section: the call does exactly what it does for the configuration with that section
  present and empty, failures included. With every section missing the payload is
  created with its product root and an empty list of attributes, and the call fails
  for want of a SKU.
\<close>

theorem missing_section_is_empty:
  assumes "map_of m n = None"
  shows "transform m h src = transform ((n, []) # m) h src
       \<and> transform [] h src = (Failed sku_error, new_payload h)"
proof -
  have "tasks m = tasks ((n, []) # m)"
    using assms by (simp add: tasks_def sections_def section_entries_def)
  then have "transform m h src = transform ((n, []) # m) h src"
    by (rule transform_tasks)
  moreover have "transform [] h src = (Failed sku_error, new_payload h)"
    by (simp add: engine_defs nth_append)
  ultimately show ?thesis by simp
qed

theorem missing_section_is_empty_witness:
  "map_of [(''core'', [(''sku'', Field ''id'')])] ''customAttributes'' = None
   \<and> transform [(''core'', [(''sku'', Field ''id'')])] [Obj [(''id'', Str ''X1'')]] (Ref 0)
     = transform [(''customAttributes'', []), (''core'', [(''sku'', Field ''id'')])]
         [Obj [(''id'', Str ''X1'')]] (Ref 0)"
  using missing_section_is_empty
    [of "[(''core'', [(''sku'', Field ''id'')])]" "''customAttributes''"
        "[Obj [(''id'', Str ''X1'')]]" "Ref 0"]
  by simp

subsection \<open>Failures of entries\<close>

lemma member_entry_failure: "member h v k = Inl e \<Longrightarrow> entry_failure e"
  by (cases v) auto

lemma push_attribute_entry_failure: "push_attribute h p k v = Inl e \<Longrightarrow> entry_failure e"
  by (auto simp: push_attribute_def split: sum.splits val.splits if_splits hobj.splits
      dest: member_entry_failure)

lemma commit_entry_failures:
  "list_all entry_failure (failures s) \<Longrightarrow> list_all entry_failure (failures (commit p sec k v s))"
  by (auto simp: commit_def fail_def split: sum.splits dest: push_attribute_entry_failure)

lemma resolve_entry_failure: "resolve h src i = Now (Inl e) \<Longrightarrow> entry_failure e"
  by (cases i) (auto split: awaited.splits dest: member_entry_failure)

lemma start_entry_failures:
  "list_all entry_failure (failures s) \<Longrightarrow> list_all entry_failure (failures (start p src s t))"
  by (cases t)
     (auto simp: fail_def commit_entry_failures split: resolution.splits sum.splits
       dest: resolve_entry_failure)

lemma resume_entry_failures:
  "list_all entry_failure (failures s) \<Longrightarrow> list_all entry_failure (failures (resume p s c))"
  by (cases "(p, s, c)" rule: resume.cases) (auto simp: fail_def commit_entry_failures)

lemma foldl_start_entry_failures:
  "list_all entry_failure (failures s)
   \<Longrightarrow> list_all entry_failure (failures (foldl (start p src) s ts))"
  by (induction ts arbitrary: s) (auto simp del: start.simps intro: start_entry_failures)

lemma foldl_resume_entry_failures:
  "list_all entry_failure (failures s)
   \<Longrightarrow> list_all entry_failure (failures (foldl (resume p) s cs))"
  by (induction cs arbitrary: s) (auto intro: resume_entry_failures)

lemma run_tasks_entry_failures:
  "list_all entry_failure (failures s)
   \<Longrightarrow> list_all entry_failure (failures (run_tasks p src s ts))"
  by (simp add: run_tasks_def Let_def foldl_resume_entry_failures foldl_start_entry_failures)

lemma assemble_entry_failures: "list_all entry_failure (failures (assemble m h src))"
  by (simp add: assemble_def initial_def run_tasks_entry_failures)

subsection \<open>The SKU check\<close>

text \<open>
  C1, as stated, fails: a SKU that is present and is not empty can still be refused.
  With \<^verbatim>\<open>core: { sku: 'id' }\<close> and the source \<^verbatim>\<open>{ id: 0 }\<close> nothing fails while the
  entries are resolved, the payload holds the number 0 as its SKU, and the call fails
  with the SKU error: line 56 tests \<^verbatim>\<open>!magentoPayload.product.sku\<close>.
\<close>

theorem sku_zero_rejected:
  "failures (assemble [(''core'', [(''sku'', Field ''id'')])] [Obj [(''id'', Num 0)]] (Ref 0)) = []
   \<and> sku_of 3 (snd (transform [(''core'', [(''sku'', Field ''id'')])]
                     [Obj [(''id'', Num 0)]] (Ref 0))) = Inr (Num 0)
   \<and> fst (transform [(''core'', [(''sku'', Field ''id'')])] [Obj [(''id'', Num 0)]] (Ref 0))
     = Failed sku_error"
  by (simp add: engine_defs sku_of_def)

text \<open>
  C1, amended: the call fails with the SKU error, and returns nothing, exactly when
  every entry's promise has settled without a failure and the SKU of the assembled
  payload is missing or falsy (\<^verbatim>\<open>undefined\<close>, \<^verbatim>\<open>null\<close>, the empty string, 0, \<^verbatim>\<open>NaN\<close> or
  \<^verbatim>\<open>false\<close>); it returns the payload exactly when every promise has settled without a
  failure and the SKU is truthy.
\<close>

theorem sku_validation:
  "(fst (transform m h src) = Failed sku_error) =
     (failures (assemble m h src) = [] \<and> \<not> stuck (assemble m h src)
      \<and> (\<exists>v. sku_of (payload_of h) (store (assemble m h src)) = Inr v \<and> \<not> truthy v))
   \<and> (fst (transform m h src) = Returned r) =
     (r = Ref (payload_of h) \<and> failures (assemble m h src) = [] \<and> \<not> stuck (assemble m h src)
      \<and> (\<exists>v. sku_of (payload_of h) (store (assemble m h src)) = Inr v \<and> truthy v))"
proof -
  have "entry_failure e" if "failures (assemble m h src) = e # es" for e es
    using assemble_entry_failures [of m h src] that by simp
  then have a: "failures (assemble m h src) \<noteq> sku_error # es" for es
    by (auto simp: sku_error_def)
  have b: "e \<noteq> sku_error"
    if "sku_of (payload_of h) (store (assemble m h src)) = Inl e" for e
    using member_entry_failure [of "store (assemble m h src)" _ "''sku''" e] that
    by (auto simp: sku_of_def sku_error_def)
  show ?thesis
    using a b
    by (auto simp: transform_def Let_def finish_def sku_of_def [symmetric]
        split: list.splits sum.splits)
qed

subsection \<open>A failing resolver function\<close>

lemma commit_failures_prefix: "\<exists>fs. failures (commit p sec k v s) = failures s @ fs"
  by (auto simp: commit_def fail_def split: sum.splits)

lemma commit_waiting: "waiting (commit p sec k v s) = waiting s"
  by (auto simp: commit_def fail_def split: sum.splits)

lemma commit_stuck: "stuck (commit p sec k v s) = stuck s"
  by (auto simp: commit_def fail_def split: sum.splits)

lemma commit_called: "called (commit p sec k v s) = called s"
  by (auto simp: commit_def fail_def split: sum.splits)

lemma start_failures_prefix: "\<exists>fs. failures (start p src s t) = failures s @ fs"
proof (cases t)
  case (fields sec k i)
  show ?thesis
  proof (cases "resolve (store s) src i")
    case (Now r)
    then show ?thesis
      using commit_failures_prefix [of p sec k _ "note_call sec k i s"] fields
      by (cases r) (auto simp: fail_def)
  qed (simp_all add: fields)
qed

lemma start_waiting_mono: "set (waiting s) \<subseteq> set (waiting (start p src s t))"
  by (cases t) (auto simp: fail_def commit_waiting split: resolution.splits sum.splits)

lemma start_called:
  "called (start p src s (sec, k, i)) = called s @ resolver_entry (sec, k, i)"
  by (auto simp: fail_def commit_called note_call_called split: resolution.splits sum.splits)

lemma resume_failures_prefix: "\<exists>fs. failures (resume p s c) = failures s @ fs"
  using commit_failures_prefix
  by (cases "(p, s, c)" rule: resume.cases) (auto simp: fail_def)

lemma resume_called: "called (resume p s c) = called s"
  by (cases "(p, s, c)" rule: resume.cases) (auto simp: fail_def commit_called)

lemma foldl_start_failures_prefix:
  "\<exists>fs. failures (foldl (start p src) s ts) = failures s @ fs"
proof (induction ts arbitrary: s)
  case Nil
  show ?case by simp
next
  case (Cons t ts)
  obtain fs where "failures (start p src s t) = failures s @ fs"
    using start_failures_prefix by blast
  moreover obtain gs where
    "failures (foldl (start p src) (start p src s t) ts) = failures (start p src s t) @ gs"
    using Cons by blast
  ultimately show ?case by simp
qed

lemma foldl_start_waiting_mono:
  "set (waiting s) \<subseteq> set (waiting (foldl (start p src) s ts))"
proof (induction ts arbitrary: s)
  case Nil
  show ?case by simp
next
  case (Cons t ts)
  show ?case
    using start_waiting_mono [of s p src t] Cons [of "start p src s t"] by auto
qed

lemma foldl_start_called:
  "called (foldl (start p src) s ts) = called s @ concat (map resolver_entry ts)"
proof (induction ts arbitrary: s)
  case Nil
  show ?case by simp
next
  case (Cons t ts)
  obtain sec k i where t: "t = (sec, k, i)"
    by (cases t)
  show ?case
    using Cons [of "start p src s t"] start_called [of p src s sec k i]
    by (simp add: t del: start.simps)
qed

lemma foldl_resume_failures_prefix:
  "\<exists>fs. failures (foldl (resume p) s cs) = failures s @ fs"
proof (induction cs arbitrary: s)
  case Nil
  show ?case by simp
next
  case (Cons c cs)
  obtain fs where "failures (resume p s c) = failures s @ fs"
    using resume_failures_prefix by blast
  moreover obtain gs where
    "failures (foldl (resume p) (resume p s c) cs) = failures (resume p s c) @ gs"
    using Cons by blast
  ultimately show ?case by simp
qed

lemma foldl_resume_called: "called (foldl (resume p) s cs) = called s"
  by (induction cs arbitrary: s) (simp_all add: resume_called)

lemma foldl_resume_rejection:
  "(t, sec, k, Inl x) \<in> set cs \<Longrightarrow> Thrown x \<in> set (failures (foldl (resume p) s cs))"
proof (induction cs arbitrary: s)
  case Nil
  then show ?case by simp
next
  case (Cons c cs)
  show ?case
  proof (cases "c = (t, sec, k, Inl x)")
    case True
    then have "Thrown x \<in> set (failures (resume p s c))"
      by (simp add: fail_def)
    then show ?thesis
      using foldl_resume_failures_prefix [of p "resume p s c" cs] by auto
  next
    case False
    with Cons show ?thesis by simp
  qed
qed

lemma run_tasks_failures_prefix:
  "\<exists>fs. failures (run_tasks p src s (before @ after))
          = failures (foldl (start p src) s before) @ fs"
proof -
  let ?s1 = "foldl (start p src) s before"
  let ?s2 = "foldl (start p src) ?s1 after"
  obtain fs where "failures ?s2 = failures ?s1 @ fs"
    using foldl_start_failures_prefix by blast
  moreover obtain gs where
    "failures (foldl (resume p) (?s2\<lparr>waiting := []\<rparr>) (sort_key fst (waiting ?s2)))
       = failures (?s2\<lparr>waiting := []\<rparr>) @ gs"
    using foldl_resume_failures_prefix by blast
  ultimately show ?thesis
    by (simp add: run_tasks_def Let_def)
qed

lemma run_tasks_failing_entry:
  assumes "resolve (store (foldl (start p src) s before)) src i = Now (Inl (Thrown x))
         \<or> resolve (store (foldl (start p src) s before)) src i = Later t (Inl x)"
  shows "Thrown x \<in> set (failures (run_tasks p src s (before @ (sec, k, i) # after)))"
proof -
  let ?s1 = "foldl (start p src) s before"
  let ?s2 = "start p src ?s1 (sec, k, i)"
  let ?s3 = "foldl (start p src) ?s2 after"
  have "Thrown x \<in> set (failures ?s2) \<or> (t, sec, k, Inl x) \<in> set (waiting ?s2)"
    using assms by (auto simp: fail_def)
  moreover obtain fs where "failures ?s3 = failures ?s2 @ fs"
    using foldl_start_failures_prefix by blast
  ultimately have "Thrown x \<in> set (failures ?s3) \<or> (t, sec, k, Inl x) \<in> set (waiting ?s3)"
    using foldl_start_waiting_mono [of ?s2 p src after] by (auto simp del: start.simps)
  then have "Thrown x \<in> set (failures (foldl (resume p) (?s3\<lparr>waiting := []\<rparr>)
                 (sort_key fst (waiting ?s3))))"
  proof
    assume a: "Thrown x \<in> set (failures ?s3)"
    obtain gs where
      "failures (foldl (resume p) (?s3\<lparr>waiting := []\<rparr>) (sort_key fst (waiting ?s3)))
         = failures (?s3\<lparr>waiting := []\<rparr>) @ gs"
      using foldl_resume_failures_prefix by blast
    then show ?thesis
      using a by (simp del: start.simps)
  next
    assume "(t, sec, k, Inl x) \<in> set (waiting ?s3)"
    then show ?thesis
      by (intro foldl_resume_rejection [of t sec k x]) (simp del: start.simps)
  qed
  then show ?thesis
    by (simp add: run_tasks_def Let_def del: start.simps)
qed

lemma run_tasks_called:
  "called (run_tasks p src s ts) = called s @ concat (map resolver_entry ts)"
  by (simp add: run_tasks_def Let_def foldl_resume_called foldl_start_called)

text \<open>
  C2, as stated, fails: the call does not always fail with the error of the resolver
  function that failed. Here the resolver of \<^verbatim>\<open>a\<close> returns a promise that rejects
  with \<^verbatim>\<open>'A'\<close> and the resolver of \<^verbatim>\<open>b\<close>, declared after it, throws \<^verbatim>\<open>'B'\<close> when it is
  called: the call fails with \<^verbatim>\<open>'B'\<close>, the first failure to happen.
\<close>

theorem first_failure_wins:
  "fst (transform [(''core'', [(''sku'', Field ''id''),
                              (''a'', Resolver (\<lambda>h s. Rejects 0 (Str ''A''))),
                              (''b'', Resolver (\<lambda>h s. Throws (Str ''B'')))])]
          [Obj [(''id'', Str ''X1'')]] (Ref 0))
     = Failed (Thrown (Str ''B''))"
  by (simp add: engine_defs)

text \<open>
  C2, amended: when the resolver function of an entry of one of the three sections
  throws as the loop calls it, or the promise it returns rejects, the call of
  \<^verbatim>\<open>transform\<close> fails and returns nothing. It fails with the first failure among the
  entries' promises, in the order the failures happen, and the resolver's error is
  among these failures. It fails with that resolver's error when the resolver throws
  on being called and no entry has failed in the loop before it, the source record
  being an object and the entries before it staying inside the data model (see
  \<open>ordinary\<close>). Every resolver function of the three sections is called exactly
  once, in the declared order: nothing is tried again.
\<close>

theorem resolver_failure_aborts:
  assumes "tasks m = before @ (sec, k, Resolver f) # after"
    and "f (store_at h src before) src = Throws x
       \<or> f (store_at h src before) src = Rejects n x"
  shows "Thrown x \<in> set (failures (assemble m h src))
       \<and> fst (transform m h src) = Failed (hd (failures (assemble m h src)))
       \<and> (f (store_at h src before) src = Throws x \<and> failures (run_at h src before) = []
              \<and> isObject src \<and> list_all ordinary before
            \<longrightarrow> fst (transform m h src) = Failed (Thrown x))
       \<and> called (assemble m h src) = concat (map resolver_entry (tasks m))"
proof -
  have "resolve (store_at h src before) src (Resolver f) = Now (Inl (Thrown x))
      \<or> resolve (store_at h src before) src (Resolver f) = Later (Suc n) (Inl x)"
    using assms(2) by auto
  then have a: "Thrown x \<in> set (failures (assemble m h src))"
    unfolding assemble_def assms(1) store_at_def by (rule run_tasks_failing_entry)
  then have "failures (assemble m h src) \<noteq> []"
    by auto
  then have b: "fst (transform m h src) = Failed (hd (failures (assemble m h src)))"
    by (cases "failures (assemble m h src)") (simp_all add: transform_def Let_def finish_def)
  have c: "hd (failures (assemble m h src)) = Thrown x"
    if t: "f (store_at h src before) src = Throws x" and e: "failures (run_at h src before) = []"
  proof -
    let ?s1 = "foldl (start (payload_of h) src) (initial h) before"
    have "failures (foldl (start (payload_of h) src) (initial h) (before @ [(sec, k, Resolver f)]))
            = [Thrown x]"
      using t e by (simp add: store_at_def run_at_def fail_def)
    moreover obtain fs where
      "failures (run_tasks (payload_of h) src (initial h) ((before @ [(sec, k, Resolver f)]) @ after))
         = failures (foldl (start (payload_of h) src) (initial h) (before @ [(sec, k, Resolver f)])) @ fs"
      using run_tasks_failures_prefix by blast
    ultimately show ?thesis
      by (simp add: assemble_def assms(1))
  qed
  have d: "called (assemble m h src) = concat (map resolver_entry (tasks m))"
    by (simp add: assemble_def run_tasks_called initial_def)
  show ?thesis
    using a b c d by simp
qed

theorem resolver_failure_aborts_witness:
  "fst (transform [(''core'', [(''sku'', Field ''id'')]),
                   (''customAttributes'',
                      [(''brand'', Resolver (\<lambda>h s. Throws (Str ''lookup failed''))),
                       (''color'', Resolver (\<lambda>h s. Fulfils 0 (Str ''red'')))])]
          [Obj [(''id'', Str ''X1'')]] (Ref 0))
     = Failed (Thrown (Str ''lookup failed''))
   \<and> called (assemble [(''core'', [(''sku'', Field ''id'')]),
                   (''customAttributes'',
                      [(''brand'', Resolver (\<lambda>h s. Throws (Str ''lookup failed''))),
                       (''color'', Resolver (\<lambda>h s. Fulfils 0 (Str ''red'')))])]
          [Obj [(''id'', Str ''X1'')]] (Ref 0))
     = [(''customAttributes'', ''brand''), (''customAttributes'', ''color'')]"
proof -
  let ?f = "\<lambda>(h::heap) (s::val). Throws (Str ''lookup failed'')"
  let ?g = "\<lambda>(h::heap) (s::val). Fulfils 0 (Str ''red'')"
  let ?m = "[(''core'', [(''sku'', Field ''id'')]),
             (''customAttributes'', [(''brand'', Resolver ?f), (''color'', Resolver ?g)])]"
  let ?h = "[Obj [(''id'', Str ''X1'')]]"
  have t: "tasks ?m = [(''core'', ''sku'', Field ''id'')]
                        @ (''customAttributes'', ''brand'', Resolver ?f)
                        # [(''customAttributes'', ''color'', Resolver ?g)]"
    by (simp add: tasks_def sections_def section_entries_def)
  have r: "?f (store_at ?h (Ref 0) [(''core'', ''sku'', Field ''id'')]) (Ref 0)
             = Throws (Str ''lookup failed'')
         \<or> ?f (store_at ?h (Ref 0) [(''core'', ''sku'', Field ''id'')]) (Ref 0)
             = Rejects 0 (Str ''lookup failed'')"
    by simp
  have e: "failures (run_at ?h (Ref 0) [(''core'', ''sku'', Field ''id'')]) = []"
    by (simp add: run_at_def engine_defs)
  have p: "path_of ''core'' ''sku'' = [''product'', ''sku'']"
    by (simp add: path_of_def destinationPath_def stringToPath_def plain_def empty_key_def)
  have o: "list_all ordinary [(''core'', ''sku'', Field ''id'')]"
    by (simp add: p inherited_def object_prototype_keys_def array_prototype_keys_def)
  show ?thesis
    using resolver_failure_aborts [where h = ?h and src = "Ref 0", OF t r] e o
    by (auto simp: t)
qed

subsection \<open>Absent values\<close>

lemma commit_absent: "absent v \<Longrightarrow> commit p sec k v s = s"
  by (auto simp: commit_def absent_def)

lemma resume_not_live: "\<not> live c \<Longrightarrow> resume p s c = s"
  by (cases "(p, s, c)" rule: resume.cases) (auto simp: commit_absent)

lemma foldl_resume_live: "foldl (resume p) s (filter live cs) = foldl (resume p) s cs"
  by (induction cs arbitrary: s) (auto simp: resume_not_live)

lemma commit_alike: "alike s s' \<Longrightarrow> alike (commit p sec k v s) (commit p sec k v s')"
  by (auto simp: alike_def commit_def fail_def split: sum.splits)

lemma note_call_alike:
  "alike s s' \<Longrightarrow> alike (note_call sec k i s) (note_call sec k i s')"
  by (simp add: alike_def)

lemma note_call_alike_self: "alike (note_call sec k i s) s"
  by (simp add: alike_def)

lemma start_alike: "alike s s' \<Longrightarrow> alike (start p src s t) (start p src s' t)"
proof (cases t)
  case (fields sec k i)
  assume a: "alike s s'"
  then have r: "resolve (store s') src i = resolve (store s) src i"
    by (simp add: alike_def)
  have n: "alike (note_call sec k i s) (note_call sec k i s')"
    using a by (rule note_call_alike)
  show ?thesis
  proof (cases "resolve (store s) src i")
    case (Now x)
    then show ?thesis
      using n r fields commit_alike [OF n]
      by (cases x) (auto simp: alike_def fail_def)
  next
    case (Later n x)
    then show ?thesis
      using a r fields by (auto simp: alike_def)
  next
    case Never
    then show ?thesis
      using a r fields by (auto simp: alike_def)
  qed
qed

lemma foldl_start_alike:
  "alike s s' \<Longrightarrow> alike (foldl (start p src) s ts) (foldl (start p src) s' ts)"
  by (induction ts arbitrary: s s') (auto simp del: start.simps intro: start_alike)

lemma start_resolves_absent:
  "resolves_absent (resolve (store s) src i) \<Longrightarrow> alike (start p src s (sec, k, i)) s"
  using note_call_alike_self [of sec k i s]
  by (cases "resolve (store s) src i" rule: resolves_absent.cases)
     (auto simp: alike_def commit_absent)

lemma resume_alike: "alike s s' \<Longrightarrow> alike (resume p s c) (resume p s' c)"
proof (cases "(p, s, c)" rule: resume.cases)
  case (1 q s0 t sec k x)
  assume "alike s s'"
  then show ?thesis
    using 1 by (simp add: alike_def fail_def)
next
  case (2 q s0 t sec k v)
  assume "alike s s'"
  then show ?thesis
    using 2 by (simp add: commit_alike)
qed

lemma foldl_resume_alike:
  "alike s s' \<Longrightarrow> alike (foldl (resume p) s cs) (foldl (resume p) s' cs)"
  by (induction cs arbitrary: s s') (auto intro: resume_alike)

lemma alike_finish:
  assumes "alike s s'"
  shows "alike (foldl (resume p) (s\<lparr>waiting := []\<rparr>) (sort_key fst (waiting s)))
               (foldl (resume p) (s'\<lparr>waiting := []\<rparr>) (sort_key fst (waiting s')))"
proof -
  have e: "alike (s\<lparr>waiting := []\<rparr>) (s'\<lparr>waiting := []\<rparr>)"
    using assms by (simp add: alike_def)
  have "sort_key fst (filter live (waiting s)) = sort_key fst (filter live (waiting s'))"
    using assms by (simp add: alike_def)
  then have f: "filter live (sort_key fst (waiting s)) = filter live (sort_key fst (waiting s'))"
    by (simp add: filter_sort)
  have "alike (foldl (resume p) (s\<lparr>waiting := []\<rparr>) (filter live (sort_key fst (waiting s))))
              (foldl (resume p) (s'\<lparr>waiting := []\<rparr>) (filter live (sort_key fst (waiting s))))"
    using e by (rule foldl_resume_alike)
  then have "alike (foldl (resume p) (s\<lparr>waiting := []\<rparr>) (filter live (sort_key fst (waiting s))))
              (foldl (resume p) (s'\<lparr>waiting := []\<rparr>) (filter live (sort_key fst (waiting s'))))"
    by (simp only: f)
  then show ?thesis
    by (simp only: foldl_resume_live)
qed

lemma run_tasks_drop_absent:
  assumes "resolves_absent (resolve (store (foldl (start p src) s before)) src i)"
  shows "alike (run_tasks p src s (before @ (sec, k, i) # after))
               (run_tasks p src s (before @ after))"
proof -
  let ?s1 = "foldl (start p src) s before"
  have "alike (start p src ?s1 (sec, k, i)) ?s1"
    using assms by (rule start_resolves_absent)
  then have "alike (foldl (start p src) (start p src ?s1 (sec, k, i)) after)
                   (foldl (start p src) ?s1 after)"
    by (rule foldl_start_alike)
  then show ?thesis
    using alike_finish by (simp add: run_tasks_def Let_def del: start.simps)
qed

lemma alike_outcome: "alike s s' \<Longrightarrow> finish p s = finish p s' \<and> store s = store s'"
  by (cases "failures s'") (auto simp: alike_def finish_def)

text \<open>
  C3. An entry whose instruction resolves to \<^verbatim>\<open>null\<close> or \<^verbatim>\<open>undefined\<close> leaves no trace:
  the call gives the same outcome and the same store, so the same output record, as
  for the configuration without that entry. No key, no list entry and no placeholder
  is written for it, and it raises no error.
\<close>

theorem absent_entry_contributes_nothing:
  assumes "tasks m = before @ (sec, k, i) # after"
    and "tasks m' = before @ after"
    and "resolves_absent (resolve (store_at h src before) src i)"
  shows "transform m h src = transform m' h src"
  using alike_outcome [OF run_tasks_drop_absent
      [where p = "payload_of h" and src = src and s = "initial h" and before = before
         and i = i and sec = sec and k = k and after = after], of "payload_of h"] assms
  by (simp add: transform_def assemble_def store_at_def Let_def)

theorem absent_entry_contributes_nothing_witness:
  "transform [(''core'', [(''sku'', Field ''id''), (''name'', Field ''title'')]),
              (''customAttributes'', [(''brand'', Resolver (\<lambda>h s. Fulfils 0 Null))])]
     [Obj [(''id'', Str ''X1''), (''title'', Null)]] (Ref 0)
   = transform [(''core'', [(''sku'', Field ''id'')]),
                (''customAttributes'', [(''brand'', Resolver (\<lambda>h s. Fulfils 0 Null))])]
       [Obj [(''id'', Str ''X1''), (''title'', Null)]] (Ref 0)"
proof -
  let ?b = "(''customAttributes'', ''brand'', Resolver (\<lambda>h s. Fulfils 0 Null))"
  let ?m = "[(''core'', [(''sku'', Field ''id''), (''name'', Field ''title'')]),
             (''customAttributes'', [(''brand'', Resolver (\<lambda>h s. Fulfils 0 Null))])]"
  let ?m' = "[(''core'', [(''sku'', Field ''id'')]),
              (''customAttributes'', [(''brand'', Resolver (\<lambda>h s. Fulfils 0 Null))])]"
  have t: "tasks ?m = [(''core'', ''sku'', Field ''id'')] @ (''core'', ''name'', Field ''title'') # [?b]"
    by (simp add: tasks_def sections_def section_entries_def)
  have t': "tasks ?m' = [(''core'', ''sku'', Field ''id'')] @ [?b]"
    by (simp add: tasks_def sections_def section_entries_def)
  have a: "resolves_absent (resolve (store_at [Obj [(''id'', Str ''X1''), (''title'', Null)]] (Ref 0)
             [(''core'', ''sku'', Field ''id'')]) (Ref 0) (Field ''title''))"
    by (simp add: store_at_def engine_defs absent_def nth_append)
  show ?thesis
    using absent_entry_contributes_nothing [OF t t' a] by simp
qed

subsection \<open>Objects of the source record kept by reference\<close>

text \<open>
  C9 at a failing input. The configuration
  \<^verbatim>\<open>{ core: { sku: 'id', custom_attributes: 'tags' }, customAttributes: { color: 'c' } }\<close>
  and the source \<^verbatim>\<open>{ id: 'S1', tags: [], c: 'red' }\<close>: the core entry stores the source's
  own array under \<^verbatim>\<open>product.custom_attributes\<close>, and the \<^verbatim>\<open>push\<close> of line 40 then
  appends to that array. The call returns, and the source record has changed: its
  \<^verbatim>\<open>tags\<close> were empty and now hold the attribute.
\<close>

theorem source_record_mutated:
  "snapshot 2 [Obj [(''id'', Str ''S1''), (''tags'', Ref 1), (''c'', Str ''red'')], Arr []] (Ref 0)
     = Some (TObj [(''id'', Prim (Str ''S1'')), (''tags'', TArr []), (''c'', Prim (Str ''red''))])
   \<and> fst (transform [(''core'', [(''sku'', Field ''id''), (''custom_attributes'', Field ''tags'')]),
                     (''customAttributes'', [(''color'', Field ''c'')])]
            [Obj [(''id'', Str ''S1''), (''tags'', Ref 1), (''c'', Str ''red'')], Arr []] (Ref 0))
     = Returned (Ref 4)
   \<and> snapshot 3
         (snd (transform [(''core'', [(''sku'', Field ''id''), (''custom_attributes'', Field ''tags'')]),
                          (''customAttributes'', [(''color'', Field ''c'')])]
                 [Obj [(''id'', Str ''S1''), (''tags'', Ref 1), (''c'', Str ''red'')], Arr []] (Ref 0)))
         (Ref 0)
     = Some (TObj [(''id'', Prim (Str ''S1'')),
                   (''tags'', TArr [TObj [(''attribute_code'', Prim (Str ''color'')),
                                          (''value'', Prim (Str ''red''))]]),
                   (''c'', Prim (Str ''red''))])"
  by (simp add: engine_defs eval_nat_numeral)

text \<open>
  C8 at the same failing input. A second call with the same configuration and the same
  source record, on the store the first call left, returns an output with two
  attributes where the first call's output had one.
\<close>

theorem second_call_differs:
  "snapshot 4
     (snd (transform [(''core'', [(''sku'', Field ''id''), (''custom_attributes'', Field ''tags'')]),
                      (''customAttributes'', [(''color'', Field ''c'')])]
             [Obj [(''id'', Str ''S1''), (''tags'', Ref 1), (''c'', Str ''red'')], Arr []] (Ref 0)))
     (Ref 4)
     = Some (TObj [(''product'', TObj [(''custom_attributes'',
                TArr [TObj [(''attribute_code'', Prim (Str ''color'')),
                            (''value'', Prim (Str ''red''))]]),
              (''sku'', Prim (Str ''S1''))])])
   \<and> fst (transform [(''core'', [(''sku'', Field ''id''), (''custom_attributes'', Field ''tags'')]),
                     (''customAttributes'', [(''color'', Field ''c'')])]
            (snd (transform [(''core'', [(''sku'', Field ''id''), (''custom_attributes'', Field ''tags'')]),
                      (''customAttributes'', [(''color'', Field ''c'')])]
             [Obj [(''id'', Str ''S1''), (''tags'', Ref 1), (''c'', Str ''red'')], Arr []] (Ref 0)))
            (Ref 0))
     = Returned (Ref 8)
   \<and> snapshot 4
     (snd (transform [(''core'', [(''sku'', Field ''id''), (''custom_attributes'', Field ''tags'')]),
                      (''customAttributes'', [(''color'', Field ''c'')])]
            (snd (transform [(''core'', [(''sku'', Field ''id''), (''custom_attributes'', Field ''tags'')]),
                      (''customAttributes'', [(''color'', Field ''c'')])]
             [Obj [(''id'', Str ''S1''), (''tags'', Ref 1), (''c'', Str ''red'')], Arr []] (Ref 0)))
            (Ref 0)))
     (Ref 8)
     = Some (TObj [(''product'', TObj [(''custom_attributes'',
                TArr [TObj [(''attribute_code'', Prim (Str ''color'')),
                            (''value'', Prim (Str ''red''))],
                      TObj [(''attribute_code'', Prim (Str ''color'')),
                            (''value'', Prim (Str ''red''))]]),
              (''sku'', Prim (Str ''S1''))])])"
  by (simp add: engine_defs eval_nat_numeral)

subsection \<open>Assignments\<close>

lemma length_assign [simp]: "length (assign h a k v) = length h"
  by (simp add: assign_def)

lemma assign_other: "b \<noteq> a \<Longrightarrow> assign h a k v ! b = h ! b"
  by (simp add: assign_def)


lemma lookup_update_other: "j \<noteq> k \<Longrightarrow> lookup (update ps k v) j = lookup ps j"
  by (induction ps) (auto simp: lookup_def)





lemma assign_keeps_plain:
  "b < length h \<Longrightarrow> h ! b = Obj ps \<Longrightarrow> \<exists>ps'. assign h a k v ! b = Obj ps'"
  by (cases "b = a") (auto simp: assign_def)


subsection \<open>What \<^verbatim>\<open>set\<close> leaves alone\<close>

lemma baseSet_follow:
  "own h a k = Ref b \<Longrightarrow> baseSet h a (k # k' # ks) v = baseSet h b (k' # ks) v"
  by simp

lemma baseSet_create:
  "\<not> isObject (own h a k) \<Longrightarrow>
   baseSet h a (k # k' # ks) v
     = baseSet (assign (h @ [container k']) a k (Ref (length h))) (length h) (k' # ks) v"
  by (cases "own h a k") (simp_all add: Let_def)



lemma baseSet_cases [case_names empty last follow create]:
  fixes P :: "heap \<Rightarrow> addr \<Rightarrow> string list \<Rightarrow> val \<Rightarrow> bool"
  assumes "\<And>h a v. P h a [] v"
    and "\<And>h a k v. P h a [k] v"
    and "\<And>h a k k' ks v b. own h a k = Ref b \<Longrightarrow> P h b (k' # ks) v \<Longrightarrow> P h a (k # k' # ks) v"
    and "\<And>h a k k' ks v. \<not> isObject (own h a k) \<Longrightarrow>
           P (assign (h @ [container k']) a k (Ref (length h))) (length h) (k' # ks) v
           \<Longrightarrow> P h a (k # k' # ks) v"
  shows "P h a ks v"
proof (induction h a ks v rule: baseSet.induct)
  case (3 h a k k' ks v)
  show ?case
  proof (cases "own h a k")
    case (Ref b)
    then show ?thesis using assms(3) "3.IH"(7) by simp
  next
    case Undefined
    then show ?thesis using assms(4) [of h a k k' ks v] "3.IH"(1) by simp
  next
    case Null
    then show ?thesis using assms(4) [of h a k k' ks v] "3.IH"(2) by simp
  next
    case (Bool x)
    then show ?thesis using assms(4) [of h a k k' ks v] "3.IH"(3) by simp
  next
    case (Num x)
    then show ?thesis using assms(4) [of h a k k' ks v] "3.IH"(4) by simp
  next
    case NaN
    then show ?thesis using assms(4) [of h a k k' ks v] "3.IH"(5) by simp
  next
    case (Str x)
    then show ?thesis using assms(4) [of h a k k' ks v] "3.IH"(6) by simp
  qed
qed (simp_all add: assms)




lemma length_baseSet: "length h \<le> length (baseSet h a ks v)"
proof (induction h a ks v rule: baseSet_cases)
  case (follow h a k k' ks v b)
  then show ?case by (simp add: baseSet_follow del: baseSet.simps)
next
  case (create h a k k' ks v)
  then show ?case by (simp add: baseSet_create del: baseSet.simps)
qed simp_all









subsection \<open>What \<^verbatim>\<open>set\<close> writes\<close>



subsection \<open>The paths of the entries\<close>

lemma word_plain: "list_all plain w \<Longrightarrow> \<not> plain c \<Longrightarrow> word (w @ c # r) = (w, c # r)"
  by (induction w) auto

lemma scan_word:
  "w \<noteq> [] \<Longrightarrow> list_all plain w \<Longrightarrow> \<not> plain c \<Longrightarrow> scan (w @ c # r) = w # scan (c # r)"
  using word_plain [of w c r] by (cases w) auto

lemma scan_dot_plain: "plain c \<Longrightarrow> scan (CHR ''.'' # c # r) = scan (c # r)"
  by (cases r) (simp_all add: plain_def empty_key_def)

lemma product_path:
  "stringToPath (''product'' @ CHR ''.'' # k) = ''product'' # scan (CHR ''.'' # k)"
  using scan_word [of "''product''" "CHR ''.''" k] by (simp add: stringToPath_def plain_def)

lemma other_path:
  "section \<noteq> ''extensionAttributes'' \<Longrightarrow>
   path_of section k = ''product'' # scan (CHR ''.'' # k)"
  using product_path [of k] by (simp add: path_of_def destinationPath_def)

lemma extension_path:
  "path_of ''extensionAttributes'' k
     = ''product'' # ''extension_attributes'' # scan (CHR ''.'' # k)"
proof -
  have "scan (CHR ''.'' # ''extension_attributes'' @ CHR ''.'' # k)
          = scan (''extension_attributes'' @ CHR ''.'' # k)"
    using scan_dot_plain [of "CHR ''e''"] by (simp add: plain_def)
  also have "\<dots> = ''extension_attributes'' # scan (CHR ''.'' # k)"
    by (rule scan_word) (simp_all add: plain_def)
  finally show ?thesis
    using product_path [of "''extension_attributes'' @ CHR ''.'' # k"]
    by (simp add: path_of_def destinationPath_def)
qed

lemma key_ok_extension: "key_ok ''extensionAttributes'' k"
  by (simp add: key_ok_def extension_path)


subsection \<open>Nested writes of the extension section\<close>




text \<open>
  The scenario of C6 end to end, with a SKU so that the call returns: the entry
  \<^verbatim>\<open>'stock_item.qty': 'inventory'\<close> and the source \<^verbatim>\<open>{ id: 'X1', inventory: 7 }\<close>.
\<close>

lemma extension_attribute_example:
  "fst (transform [(''core'', [(''sku'', Field ''id'')]),
                   (''extensionAttributes'', [(''stock_item.qty'', Field ''inventory'')])]
          [Obj [(''id'', Str ''X1''), (''inventory'', Num 7)]] (Ref 0)) = Returned (Ref 3)
   \<and> snapshot 5 (snd (transform [(''core'', [(''sku'', Field ''id'')]),
                   (''extensionAttributes'', [(''stock_item.qty'', Field ''inventory'')])]
          [Obj [(''id'', Str ''X1''), (''inventory'', Num 7)]] (Ref 0))) (Ref 3)
     = Some (TObj [(''product'', TObj [(''custom_attributes'', TArr []),
               (''sku'', Prim (Str ''X1'')),
               (''extension_attributes'',
                  TObj [(''stock_item'', TObj [(''qty'', Prim (Num 7))])])])])"
  by (simp add: engine_defs eval_nat_numeral)

subsection \<open>Sealed stores\<close>

lemma fits_mono: "fits n X v \<Longrightarrow> n \<le> n' \<Longrightarrow> fits n' X v"
  by (auto simp: fits_def split: val.splits)

lemma fits_insert: "fits n X v \<Longrightarrow> fits (Suc n) (insert n X) v"
  by (auto simp: fits_def split: val.splits)

lemma fits_Ref: "fits n X (Ref c) = (c < n \<and> c \<notin> X)"
  by (simp add: fits_def)

lemma lookup_in_vals: "lookup ps k = Ref c \<Longrightarrow> Ref c \<in> snd ` set ps"
  by (auto simp: lookup_def split: option.splits dest: map_of_SomeD intro: rev_image_eqI)

lemma element_in_vals: "element xs k = Ref c \<Longrightarrow> Ref c \<in> set xs"
  by (auto simp: element_def in_set_conv_nth split: option.splits if_splits)

lemma own_in_vals: "own h b k = Ref c \<Longrightarrow> b < length h \<and> Ref c \<in> set (vals (h ! b))"
  by (cases "h ! b")
     (auto simp: own_def split: if_splits dest: lookup_in_vals element_in_vals)

lemma own_fits:
  assumes "sealed X h" and "b < length h" and "b \<notin> X"
  shows "fits (length h) X (own h b k)"
proof (cases "own h b k")
  case (Ref c)
  then have "Ref c \<in> set (vals (h ! b))"
    by (simp add: own_in_vals)
  then show ?thesis
    using assms Ref by (auto simp: sealed_def list_all_iff)
qed (simp_all add: fits_def)

lemma vals_update: "set (map snd (update ps k v)) \<subseteq> insert v (set (map snd ps))"
  by (induction ps) (force split: if_splits)+

lemma vals_store_element: "set (store_element xs i v) \<subseteq> insert v (insert Undefined (set xs))"
  by (auto simp: store_element_def dest: set_update_subset_insert [THEN subsetD])

lemma vals_assign:
  "a < length h \<Longrightarrow> set (vals (assign h a k v ! a)) \<subseteq> insert v (insert Undefined (set (vals (h ! a))))"
  using vals_update [of ps k v for ps] vals_store_element [of xs i v for xs i]
  by (cases "h ! a") (auto simp: assign_def split: option.splits)

lemma assign_sealed:
  assumes "sealed X h" and "fits (length h) X v"
  shows "sealed X (assign h a k v)"
  unfolding sealed_def
proof (intro allI impI)
  fix b
  assume b: "b < length (assign h a k v)" "b \<notin> X"
  show "list_all (fits (length (assign h a k v)) X) (vals (assign h a k v ! b))"
  proof (cases "b = a")
    case True
    have "fits (length h) X x" if "x \<in> set (vals (assign h a k v ! a))" for x
    proof -
      have "x = v \<or> x = Undefined \<or> x \<in> set (vals (h ! a))"
        using that vals_assign [of a h k v] b True by auto
      then show ?thesis
        using assms b True by (auto simp: sealed_def list_all_iff fits_def)
    qed
    then show ?thesis
      using True by (simp add: list_all_iff)
  next
    case False
    then show ?thesis
      using assms(1) b by (simp add: sealed_def assign_other)
  qed
qed

lemma assign_guarded_sealed:
  assumes "sealed X h" and "a \<in> X"
  shows "sealed X (assign h a k v)"
  unfolding sealed_def
proof (intro allI impI)
  fix b
  assume b: "b < length (assign h a k v)" "b \<notin> X"
  then have "b \<noteq> a"
    using assms(2) by auto
  then show "list_all (fits (length (assign h a k v)) X) (vals (assign h a k v ! b))"
    using assms(1) b by (simp add: sealed_def assign_other)
qed

lemma append_sealed:
  assumes "sealed X h" and "list_all (fits (Suc (length h)) X) (vals c)"
  shows "sealed X (h @ [c])"
  unfolding sealed_def
proof (intro allI impI)
  fix b
  assume b: "b < length (h @ [c])" "b \<notin> X"
  show "list_all (fits (length (h @ [c])) X) (vals ((h @ [c]) ! b))"
  proof (cases "b = length h")
    case True
    then show ?thesis using assms(2) by simp
  next
    case False
    then have "list_all (fits (length h) X) (vals (h ! b))"
      using assms(1) b by (simp add: sealed_def)
    then show ?thesis
      using False b by (auto simp: nth_append list_all_iff intro: fits_mono)
  qed
qed

lemma vals_container [simp]: "vals (container k) = []"
  by (simp add: container_def)

lemma baseSet_sealed:
  "sealed X h \<Longrightarrow> X \<subseteq> {..<length h} \<Longrightarrow> a < length h \<Longrightarrow> a \<notin> X \<Longrightarrow> fits (length h) X v
   \<Longrightarrow> sealed X (baseSet h a ks v) \<and> (\<forall>b \<in> X. baseSet h a ks v ! b = h ! b)"
proof (induction h a ks v rule: baseSet_cases)
  case (empty h a v)
  then show ?case by simp
next
  case (last h a k v)
  have "assign h a k v ! b = h ! b" if "b \<in> X" for b
    using that last.prems by (intro assign_other) auto
  then show ?case
    using last.prems by (simp add: assign_sealed)
next
  case (follow h a k k' ks v c)
  have "fits (length h) X (own h a k)"
    using follow.prems by (intro own_fits) simp_all
  then have "c < length h" "c \<notin> X"
    using follow.hyps by (simp_all add: fits_Ref)
  then show ?case
    using follow.IH follow.prems follow.hyps by (simp add: baseSet_follow del: baseSet.simps)
next
  case (create h a k k' ks v)
  let ?h' = "assign (h @ [container k']) a k (Ref (length h))"
  have n: "length h \<notin> X"
    using create.prems by auto
  have "sealed X (h @ [container k'])"
    using create.prems by (intro append_sealed) simp_all
  then have s: "sealed X ?h'"
    using n by (intro assign_sealed) (simp_all add: fits_Ref)
  have "sealed X (baseSet ?h' (length h) (k' # ks) v)
      \<and> (\<forall>b \<in> X. baseSet ?h' (length h) (k' # ks) v ! b = ?h' ! b)"
    using create.prems s n by (intro create.IH) (auto intro: fits_mono)
  moreover have "?h' ! b = h ! b" if "b \<in> X" for b
  proof -
    have "b \<noteq> a" "b < length h"
      using that create.prems by auto
    then show ?thesis
      by (simp add: assign_other nth_append)
  qed
  ultimately show ?case
    using create.hyps by (simp add: baseSet_create del: baseSet.simps)
qed

subsection \<open>The payload stays apart\<close>

lemma guarded_bound: "payload_inv A es H L \<Longrightarrow> guarded A es \<subseteq> {..<length H}"
  by (auto simp: payload_inv_def guarded_def)

lemma old_fits:
  "payload_inv A es H L \<Longrightarrow> fits A {} v \<Longrightarrow> fits (length H) (guarded A es) v"
  by (cases v) (auto simp: fits_def payload_inv_def guarded_def)

lemma set_update: "set (update ps k v) \<subseteq> insert (k, v) (set ps)"
  by (induction ps) (auto split: if_splits)

lemma payload_inv_frame:
  assumes "payload_inv A es H L" and "length H \<le> length H'"
    and "H' ! A = H ! A" and "\<forall>e \<in> set es. H' ! e = H ! e" and "H' ! (A + 2) = H ! (A + 2)"
    and "H' ! (A + 1) = Obj ps'" and "lookup ps' ''custom_attributes'' = Ref A"
    and "\<forall>(j, x) \<in> set ps'. j \<noteq> ''custom_attributes'' \<longrightarrow> fits (length H') (guarded A es) x"
    and "sealed (guarded A es) H'"
  shows "payload_inv A es H' L"
proof -
  have "map ((!) H') es = map ((!) H) es"
    using assms(4) by simp
  then show ?thesis
    using assms unfolding payload_inv_def by auto
qed

lemma product_values_fit:
  assumes "payload_inv A es H L" and "H ! (A + 1) = Obj ps" and "length H \<le> n"
    and "fits n (guarded A es) v" and "k \<noteq> ''custom_attributes''"
  shows "lookup (update ps k v) ''custom_attributes'' = Ref A
       \<and> (\<forall>(j, x) \<in> set (update ps k v). j \<noteq> ''custom_attributes'' \<longrightarrow> fits n (guarded A es) x)"
proof -
  have "fits n (guarded A es) x" if "(j, x) \<in> set (update ps k v)" "j \<noteq> ''custom_attributes''" for j x
  proof -
    have "(j, x) = (k, v) \<or> (j, x) \<in> set ps"
      using that(1) set_update [of ps k v] by auto
    then show ?thesis
      using assms that(2) unfolding payload_inv_def by (auto intro: fits_mono)
  qed
  moreover have "lookup (update ps k v) ''custom_attributes'' = Ref A"
    using assms by (simp add: lookup_update_other payload_inv_def)
  ultimately show ?thesis by auto
qed

lemma baseSet_payload_inv:
  assumes inv: "payload_inv A es H L" and v: "fits (length H) (guarded A es) v"
    and k: "k \<noteq> ''custom_attributes''"
  shows "payload_inv A es (baseSet H (A + 2) (''product'' # k # rest) v) L"
proof -
  let ?X = "guarded A es"
  obtain ps where ps: "H ! (A + 1) = Obj ps"
    using inv by (auto simp: payload_inv_def)
  have len: "A + 2 < length H" and root: "H ! (A + 2) = Obj [(''product'', Ref (A + 1))]"
    and sealed: "sealed ?X H"
    using inv by (simp_all add: payload_inv_def)
  have X: "A \<in> ?X" "A + 1 \<in> ?X" "A + 2 \<in> ?X" "set es \<subseteq> ?X"
    by (auto simp: guarded_def)
  have "own H (A + 2) ''product'' = Ref (A + 1)"
    using len root by (simp add: own_def lookup_def)
  then have step: "baseSet H (A + 2) (''product'' # k # r) v = baseSet H (A + 1) (k # r) v" for r
    by (rule baseSet_follow)
  show ?thesis
  proof (cases rest)
    case Nil
    let ?H' = "assign H (A + 1) k v"
    have "?H' ! (A + 1) = Obj (update ps k v)"
      using len ps by (simp add: assign_def)
    moreover have "\<forall>e \<in> set es. ?H' ! e = H ! e"
      using inv by (auto simp: payload_inv_def assign_other)
    moreover have "sealed ?X ?H'"
      using sealed X by (intro assign_guarded_sealed)
    ultimately have "payload_inv A es ?H' L"
      using inv product_values_fit [OF inv ps _ v k]
      by (intro payload_inv_frame [OF inv, of _ "update ps k v"]) (simp_all add: assign_other)
    then show ?thesis
      by (simp only: Nil step baseSet.simps(2))
  next
    case (Cons k' ks)
    show ?thesis
    proof (cases "isObject (own H (A + 1) k)")
      case True
      then obtain c where c: "own H (A + 1) k = Ref c"
        by (cases "own H (A + 1) k") simp_all
      then have "lookup ps k = Ref c"
        using len ps by (simp add: own_def)
      then have "(k, Ref c) \<in> set ps"
        by (auto simp: lookup_def split: option.splits dest: map_of_SomeD)
      then have "fits (length H) ?X (Ref c)"
        using inv ps k unfolding payload_inv_def by auto
      then have cc: "c < length H" "c \<notin> ?X"
        by (simp_all add: fits_Ref)
      let ?H' = "baseSet H c (k' # ks) v"
      have r: "sealed ?X ?H' \<and> (\<forall>b \<in> ?X. ?H' ! b = H ! b)"
        using sealed guarded_bound [OF inv] cc v by (intro baseSet_sealed)
      have l: "length H \<le> length ?H'"
        by (rule length_baseSet)
      have "\<forall>(j, x) \<in> set ps. j \<noteq> ''custom_attributes'' \<longrightarrow> fits (length ?H') ?X x"
        using inv ps l unfolding payload_inv_def by (auto intro: fits_mono)
      moreover have "lookup ps ''custom_attributes'' = Ref A"
        using inv ps by (simp add: payload_inv_def)
      ultimately have "payload_inv A es ?H' L"
        using r X l ps by (intro payload_inv_frame [OF inv, of _ ps]) auto
      then have "payload_inv A es ?H' L" .
      moreover have "baseSet H (A + 1) (k # k' # ks) v = ?H'"
        using c by (rule baseSet_follow)
      ultimately show ?thesis
        by (simp only: Cons step)
    next
      case False
      let ?H1 = "assign (H @ [container k']) (A + 1) k (Ref (length H))"
      let ?H' = "baseSet ?H1 (length H) (k' # ks) v"
      have n: "length H \<notin> ?X"
        using guarded_bound [OF inv] by auto
      have "sealed ?X (H @ [container k'])"
        using sealed by (intro append_sealed) simp_all
      then have s1: "sealed ?X ?H1"
        using X by (intro assign_guarded_sealed)
      have r: "sealed ?X ?H' \<and> (\<forall>b \<in> ?X. ?H' ! b = ?H1 ! b)"
        using s1 guarded_bound [OF inv] n v
        by (intro baseSet_sealed) (auto intro: fits_mono)
      have l: "length ?H1 \<le> length ?H'"
        by (rule length_baseSet)
      have same: "?H1 ! b = H ! b" if "b \<in> ?X" "b \<noteq> A + 1" for b
        using that guarded_bound [OF inv] by (auto simp: assign_other nth_append)
      have p1: "?H1 ! (A + 1) = Obj (update ps k (Ref (length H)))"
        using len ps by (simp add: assign_def nth_append)
      have "fits (length ?H') ?X (Ref (length H))"
        using n l by (simp add: fits_Ref)
      then have pv: "lookup (update ps k (Ref (length H))) ''custom_attributes'' = Ref A
           \<and> (\<forall>(j, x) \<in> set (update ps k (Ref (length H))).
                 j \<noteq> ''custom_attributes'' \<longrightarrow> fits (length ?H') ?X x)"
        using l by (intro product_values_fit [OF inv ps _ _ k]) simp_all
      have es: "\<forall>e \<in> set es. e \<noteq> A + 1"
        using inv by (auto simp: payload_inv_def)
      have "payload_inv A es ?H' L"
        using r X l pv p1 same es
        by (intro payload_inv_frame [OF inv, of _ "update ps k (Ref (length H))"]) auto
      moreover have "baseSet H (A + 1) (k # k' # ks) v = ?H'"
        using False by (rule baseSet_create)
      ultimately show ?thesis
        by (simp only: Cons step)
    qed
  qed
qed

lemma guarded_snoc: "guarded A (es @ [n]) = insert n (guarded A es)"
  by (auto simp: guarded_def)

lemma push_payload_inv:
  assumes inv: "payload_inv A es H L" and v: "fits (length H) (guarded A es) v"
  shows "\<exists>H'. push_attribute H (A + 2) k v = Inr H'
              \<and> payload_inv A (es @ [length H]) H' (L @ [(k, v)])"
proof -
  let ?X = "guarded A es"
  let ?n = "length H"
  let ?H' = "(H @ [attribute_record (k, v)])[A := Arr (map Ref (es @ [?n]))]"
  obtain ps where ps: "H ! (A + 1) = Obj ps" "lookup ps ''custom_attributes'' = Ref A"
    and psv: "\<forall>(j, x) \<in> set ps. j \<noteq> ''custom_attributes'' \<longrightarrow> fits ?n ?X x"
    using inv by (auto simp: payload_inv_def)
  have len: "A + 2 < ?n" and root: "H ! (A + 2) = Obj [(''product'', Ref (A + 1))]"
    and list: "H ! A = Arr (map Ref es)" and sealed: "sealed ?X H"
    and es: "\<forall>e \<in> set es. A + 2 < e \<and> e < ?n" and d: "distinct es"
    and recs: "map ((!) H) es = map attribute_record L"
    using inv by (simp_all add: payload_inv_def)
  have "own H (A + 2) ''product'' = Ref (A + 1)"
    using len root by (simp add: own_def lookup_def)
  moreover have "own H (A + 1) ''custom_attributes'' = Ref A"
    using len ps by (simp add: own_def)
  ultimately have push: "push_attribute H (A + 2) k v = Inr ?H'"
    using len list by (simp add: push_attribute_def attribute_record_def)
  have other: "?H' ! b = H ! b" if "b < ?n" "b \<noteq> A" for b
    using that by (simp add: nth_append)
  have "map ((!) ?H') es = map ((!) H) es"
    using es other by auto
  moreover have "?H' ! ?n = attribute_record (k, v)"
    using len by simp
  ultimately have recs': "map ((!) ?H') (es @ [?n]) = map attribute_record (L @ [(k, v)])"
    using recs by simp
  have sealed': "sealed (guarded A (es @ [?n])) ?H'"
    unfolding sealed_def guarded_snoc
  proof (intro allI impI)
    fix b
    assume b: "b < length ?H'" "b \<notin> insert ?n ?X"
    then have "b < ?n" "b \<notin> ?X" "b \<noteq> A"
      by (auto simp: guarded_def)
    then have "list_all (fits ?n ?X) (vals (?H' ! b))"
      using sealed other by (simp add: sealed_def)
    then show "list_all (fits (length ?H') (insert ?n ?X)) (vals (?H' ! b))"
      by (auto simp: list_all_iff intro: fits_insert)
  qed
  have "\<forall>(j, x) \<in> set ps. j \<noteq> ''custom_attributes'' \<longrightarrow> fits (length ?H') (guarded A (es @ [?n])) x"
    using psv unfolding guarded_snoc by (auto intro: fits_insert)
  then have "payload_inv A (es @ [?n]) ?H' (L @ [(k, v)])"
    unfolding payload_inv_def
    using len recs' sealed' es d ps root other [of "A + 1"] other [of "A + 2"]
    by (auto simp del: map_append)
  with push show ?thesis by blast
qed

lemma commit_payload_inv:
  assumes inv: "payload_inv A es (store s) L"
    and v: "fits (length (store s)) (guarded A es) v" and k: "key_ok sec k"
  shows "\<exists>es'. payload_inv A es' (store (commit (A + 2) sec k v s)) (L @ attribute sec k v)"
proof (cases "absent v")
  case True
  then show ?thesis
    using inv by (auto simp: commit_absent attribute_def)
next
  case False
  then have nv: "\<not> (v = Null \<or> v = Undefined)"
    by (simp add: absent_def)
  show ?thesis
  proof (cases "sec = ''customAttributes''")
    case True
    obtain H' where "push_attribute (store s) (A + 2) k v = Inr H'"
      and "payload_inv A (es @ [length (store s)]) H' (L @ [(k, v)])"
      using push_payload_inv [OF inv v] by blast
    then show ?thesis
      using True False nv by (auto simp: commit_def attribute_def)
  next
    case custom: False
    then obtain k1 rest where p: "path_of sec k = ''product'' # k1 # rest"
      and k1: "k1 \<noteq> ''custom_attributes''"
      using k by (auto simp: key_ok_def split: list.splits)
    have "payload_inv A es (baseSet (store s) (A + 2) (''product'' # k1 # rest) v) L"
      using inv v k1 by (rule baseSet_payload_inv)
    then show ?thesis
      using custom nv p by (auto simp: commit_def attribute_def lodash_set_def path_of_def)
  qed
qed

subsection \<open>The list of attributes through the call\<close>

lemma member_fits:
  assumes "payload_inv A es H L" and "fits A {} src" and "member H src name = Inr v"
  shows "fits (length H) (guarded A es) v"
proof (cases src)
  case (Ref a)
  then have a: "a < A"
    using assms(2) by (simp add: fits_Ref)
  then have "a < length H" "a \<notin> guarded A es"
    using assms(1) by (auto simp: payload_inv_def guarded_def)
  moreover have "sealed (guarded A es) H"
    using assms(1) by (simp add: payload_inv_def)
  ultimately have "fits (length H) (guarded A es) (own H a name)"
    by (intro own_fits)
  then show ?thesis
    using assms(3) Ref by simp
next
  case (Str x)
  then show ?thesis
    using assms(3) by (auto simp: fits_def split: val.splits)
qed (use assms(3) in \<open>auto simp: fits_def\<close>)

lemma resolve_Now_value:
  "resolve H src i = Now (Inr v) \<Longrightarrow> \<exists>name. i = Field name \<and> member H src name = Inr v"
  by (cases i) (auto split: awaited.splits)

lemma resolve_Later_value:
  "resolve H src i = Later t (Inr v) \<Longrightarrow> resolver_ok A src i \<Longrightarrow> fits A {} v"
  by (cases i) (auto split: awaited.splits)

lemma start_run_inv:
  assumes inv: "run_inv A s L" and src: "fits A {} src" and k: "key_ok sec k"
    and i: "resolver_ok A src i"
  shows "run_inv A (start (A + 2) src s (sec, k, i))
           (L @ committed_now (sec, k, resolve (store s) src i))
       \<and> waiting (start (A + 2) src s (sec, k, i))
           = waiting s @ awaiting (sec, k, resolve (store s) src i)"
proof -
  obtain es where es: "payload_inv A es (store s) L"
    using inv by (auto simp: run_inv_def)
  have w: "list_all (item_ok A) (waiting s)"
    using inv by (simp add: run_inv_def)
  show ?thesis
  proof (cases "resolve (store s) src i")
    case (Now r)
    show ?thesis
    proof (cases r)
      case (Inl e)
      then show ?thesis
        using Now inv by (simp add: fail_def run_inv_def)
    next
      case (Inr v)
      then obtain name where "member (store s) src name = Inr v"
        using Now resolve_Now_value by blast
      then have "fits (length (store s)) (guarded A es) v"
        using es src by (intro member_fits)
      then have "\<exists>es'. payload_inv A es'
                   (store (commit (A + 2) sec k v (note_call sec k i s))) (L @ attribute sec k v)"
        using es k by (intro commit_payload_inv) simp_all
      then show ?thesis
        using Now Inr w by (simp add: run_inv_def commit_waiting)
    qed
  next
    case (Later t r)
    have "item_ok A (t, sec, k, r)"
      using Later k i resolve_Later_value [of "store s" src i t _ A] by (cases r) simp_all
    then show ?thesis
      using Later es w by (auto simp: run_inv_def)
  next
    case Never
    then show ?thesis
      using es w by (auto simp: run_inv_def)
  qed
qed

lemma foldl_start_run_inv:
  assumes "run_inv A s L" and "fits A {} src"
    and "\<forall>(sec, k, i) \<in> set ts. key_ok sec k \<and> resolver_ok A src i"
  shows "run_inv A (foldl (start (A + 2) src) s ts)
           (L @ concat (map committed_now (resolutions (A + 2) src s ts)))
       \<and> waiting (foldl (start (A + 2) src) s ts)
           = waiting s @ concat (map awaiting (resolutions (A + 2) src s ts))"
  using assms
proof (induction ts arbitrary: s L)
  case Nil
  then show ?case by simp
next
  case (Cons t ts)
  obtain sec k i where t: "t = (sec, k, i)"
    by (cases t)
  have ok: "key_ok sec k" "resolver_ok A src i"
    using Cons.prems(3) t by auto
  let ?s' = "start (A + 2) src s (sec, k, i)"
  let ?r = "(sec, k, resolve (store s) src i)"
  have step: "run_inv A ?s' (L @ committed_now ?r)" "waiting ?s' = waiting s @ awaiting ?r"
    using start_run_inv [OF Cons.prems(1,2) ok] by simp_all
  have "run_inv A (foldl (start (A + 2) src) ?s' ts)
           ((L @ committed_now ?r) @ concat (map committed_now (resolutions (A + 2) src ?s' ts)))
       \<and> waiting (foldl (start (A + 2) src) ?s' ts)
           = waiting ?s' @ concat (map awaiting (resolutions (A + 2) src ?s' ts))"
    using Cons.prems(2,3) by (intro Cons.IH [OF step(1)]) simp_all
  then show ?case
    using step(2) by (simp add: t del: start.simps)
qed

lemma resume_payload_inv:
  assumes "payload_inv A es (store s) L" and "item_ok A c"
  shows "\<exists>es'. payload_inv A es' (store (resume (A + 2) s c)) (L @ committed_later c)"
proof (cases "(A + 2, s, c)" rule: resume.cases)
  case (1 p s' t sec k x)
  then show ?thesis
    using assms by (auto simp: fail_def)
next
  case (2 p s' t sec k v)
  then have "fits (length (store s)) (guarded A es) v" "key_ok sec k"
    using assms by (auto intro: old_fits)
  then show ?thesis
    using 2 commit_payload_inv [OF assms(1)] by simp
qed

lemma foldl_resume_payload_inv:
  assumes "\<exists>es. payload_inv A es (store s) L" and "list_all (item_ok A) cs"
  shows "\<exists>es. payload_inv A es (store (foldl (resume (A + 2)) s cs))
                 (L @ concat (map committed_later cs))"
  using assms
proof (induction cs arbitrary: s L)
  case Nil
  then show ?case by simp
next
  case (Cons c cs)
  obtain es where "payload_inv A es (store s) L"
    using Cons.prems(1) by blast
  then have "\<exists>es'. payload_inv A es' (store (resume (A + 2) s c)) (L @ committed_later c)"
    using Cons.prems(2) by (intro resume_payload_inv) simp_all
  then have "\<exists>es. payload_inv A es (store (foldl (resume (A + 2)) (resume (A + 2) s c) cs))
                 ((L @ committed_later c) @ concat (map committed_later cs))"
    using Cons.prems(2) by (intro Cons.IH) simp_all
  then show ?case by simp
qed

lemma initial_payload_inv:
  assumes "closed h"
  shows "payload_inv (length h) [] (new_payload h) []"
proof -
  have "sealed (guarded (length h) []) (new_payload h)"
    unfolding sealed_def
  proof (intro allI impI)
    fix b
    assume "b < length (new_payload h)" "b \<notin> guarded (length h) []"
    then have b: "b < length h"
      by (auto simp: new_payload_def guarded_def)
    then have "list_all (fits (length h) {}) (vals (h ! b))"
      using assms by (simp add: closed_def list_all_length)
    then show "list_all (fits (length (new_payload h)) (guarded (length h) [])) (vals (new_payload h ! b))"
      using b by (auto simp: new_payload_def nth_append list_all_iff fits_def guarded_def
          split: val.splits)
  qed
  then show ?thesis
    by (simp add: payload_inv_def new_payload_def nth_append lookup_def)
qed

lemma run_tasks_payload_inv:
  assumes "closed h" and "fits (length h) {} src"
    and "\<forall>(sec, k, i) \<in> set ts. key_ok sec k \<and> resolver_ok (length h) src i"
  shows "\<exists>es. payload_inv (length h) es (store (run_tasks (payload_of h) src (initial h) ts))
           (concat (map committed_now (resolutions (payload_of h) src (initial h) ts))
            @ concat (map committed_later (sort_key fst
                (concat (map awaiting (resolutions (payload_of h) src (initial h) ts))))))"
proof -
  let ?A = "length h"
  let ?s1 = "foldl (start (?A + 2) src) (initial h) ts"
  let ?R = "resolutions (?A + 2) src (initial h) ts"
  have "run_inv ?A (initial h) []"
    using initial_payload_inv [OF assms(1)] by (auto simp: run_inv_def initial_def)
  then have s1: "run_inv ?A ?s1 ([] @ concat (map committed_now ?R))
               \<and> waiting ?s1 = waiting (initial h) @ concat (map awaiting ?R)"
    using assms(2,3) by (rule foldl_start_run_inv)
  then have w: "waiting ?s1 = concat (map awaiting ?R)"
    by (simp add: initial_def)
  have "list_all (item_ok ?A) (sort_key fst (waiting ?s1))"
    using s1 by (simp add: run_inv_def list_all_iff)
  moreover have "\<exists>es. payload_inv ?A es (store (?s1\<lparr>waiting := []\<rparr>)) (concat (map committed_now ?R))"
    using s1 by (simp add: run_inv_def)
  ultimately have "\<exists>es. payload_inv ?A es
        (store (foldl (resume (?A + 2)) (?s1\<lparr>waiting := []\<rparr>) (sort_key fst (waiting ?s1))))
        (concat (map committed_now ?R) @ concat (map committed_later (sort_key fst (waiting ?s1))))"
    by (intro foldl_resume_payload_inv)
  then show ?thesis
    using w by (simp add: run_tasks_def Let_def payload_of_def)
qed

lemma payload_inv_attribute_list:
  assumes "payload_inv A es H L"
  shows "attribute_list H (A + 2) = Some (map (\<lambda>kv. Some (attribute_record kv)) L)"
proof -
  obtain ps where ps: "H ! (A + 1) = Obj ps" "lookup ps ''custom_attributes'' = Ref A"
    using assms by (auto simp: payload_inv_def)
  have len: "A + 2 < length H" and root: "H ! (A + 2) = Obj [(''product'', Ref (A + 1))]"
    and list: "H ! A = Arr (map Ref es)" and es: "\<forall>e \<in> set es. e < length H"
    and recs: "map ((!) H) es = map attribute_record L"
    using assms by (simp_all add: payload_inv_def)
  have "get_path H (Ref (A + 2)) [''product'', ''custom_attributes''] = Ref A"
    using len root ps by (simp add: own_def lookup_def)
  moreover have "map (\<lambda>x. case x of Ref e \<Rightarrow> if e < length H then Some (H ! e) else None
                        | _ \<Rightarrow> None) (map Ref es)
               = map Some (map ((!) H) es)"
    using es by simp
  ultimately show ?thesis
    using len list recs by (simp add: attribute_list_def del: get_path.simps)
qed

lemma tasks_key_ok:
  assumes "\<forall>(k, i) \<in> set (section_entries m ''core''). key_ok ''core'' k"
  shows "\<forall>(sec, k, i) \<in> set (tasks m). key_ok sec k"
proof -
  have "key_ok ''customAttributes'' k" for k
    by (simp add: key_ok_def)
  then show ?thesis
    using assms key_ok_extension by (auto simp: tasks_def sections_def)
qed

subsection \<open>The order of the attributes\<close>

text \<open>
  C5, as stated, fails: with a resolver function before a field reference the list is
  not in the declared order. The configuration declares \<^verbatim>\<open>brand\<close> (an asynchronous
  function) and then \<^verbatim>\<open>description\<close> (a field reference); every entry resolves to a
  value and the call returns; the list holds \<^verbatim>\<open>description\<close> first, because the field
  reference is pushed in the loop and the function only after its \<^verbatim>\<open>await\<close>.
\<close>

theorem attributes_not_in_declared_order:
  "fst (transform [(''core'', [(''sku'', Field ''id'')]),
                   (''customAttributes'',
                      [(''brand'', Resolver (\<lambda>h s. Fulfils 0 (Str ''124''))),
                       (''description'', Field ''description_2'')])]
          [Obj [(''id'', Str ''X1''), (''description_2'', Str ''dd'')]] (Ref 0))
     = Returned (Ref 3)
   \<and> snapshot 4 (snd (transform [(''core'', [(''sku'', Field ''id'')]),
                   (''customAttributes'',
                      [(''brand'', Resolver (\<lambda>h s. Fulfils 0 (Str ''124''))),
                       (''description'', Field ''description_2'')])]
          [Obj [(''id'', Str ''X1''), (''description_2'', Str ''dd'')]] (Ref 0))) (Ref 3)
     = Some (TObj [(''product'', TObj [(''custom_attributes'',
          TArr [TObj [(''attribute_code'', Prim (Str ''description'')), (''value'', Prim (Str ''dd''))],
                TObj [(''attribute_code'', Prim (Str ''brand'')), (''value'', Prim (Str ''124''))]]),
          (''sku'', Prim (Str ''X1''))])])"
  by (simp add: engine_defs eval_nat_numeral)

text \<open>
  C5, amended. Take a configuration, a store and a source record such that: the
  source record is an object of the store, and the store has no dangling reference;
  every key of the core section has a path that goes on after \<^verbatim>\<open>product\<close> with a key
  other than \<^verbatim>\<open>custom_attributes\<close>; no entry writes to a path with a key that is the
  name of an inherited property or \<^verbatim>\<open>length\<close>, or reads the source record at the name
  of an inherited property; and the resolver functions return primitives or objects
  that were in the store before the call. Then the list at
  \<^verbatim>\<open>product.custom_attributes\<close> of the payload holds exactly one record per entry of
  the flat section that resolved to a value that is not dropped, each record exactly
  \<^verbatim>\<open>{attribute_code, value}\<close>, in the order the entries are committed: the field
  references first, in the declared order, then the entries with a resolver function,
  by the turn at which their \<^verbatim>\<open>await\<close> resumes and in the declared order within a
  turn. So the list is in the declared order when all its entries are field
  references.
\<close>

theorem custom_attributes_commit_order:
  assumes "closed h" and "a < length h"
    and "\<forall>(k, i) \<in> set (section_entries m ''core''). key_ok ''core'' k"
    and "list_all ordinary (tasks m)"
    and "\<forall>(sec, k, i) \<in> set (tasks m). resolver_ok (length h) (Ref a) i"
  shows "attribute_list (snd (transform m h (Ref a))) (payload_of h)
       = Some (map (\<lambda>kv. Some (attribute_record kv))
                (attributes_in_loop m h (Ref a) @ attributes_awaited m h (Ref a)))"
proof -
  have src: "fits (length h) {} (Ref a)"
    using assms(2) by (simp add: fits_def)
  have "\<forall>(sec, k, i) \<in> set (tasks m). key_ok sec k \<and> resolver_ok (length h) (Ref a) i"
    using tasks_key_ok [OF assms(3)] assms(5) by auto
  then obtain es where "payload_inv (length h) es (store (assemble m h (Ref a)))
      (attributes_in_loop m h (Ref a) @ attributes_awaited m h (Ref a))"
    using run_tasks_payload_inv [OF assms(1) src, of "tasks m"]
    unfolding assemble_def attributes_in_loop_def attributes_awaited_def by blast
  then show ?thesis
    using payload_inv_attribute_list by (simp add: transform_def Let_def payload_of_def)
qed

theorem custom_attributes_commit_order_witness:
  "attribute_list (snd (transform [(''core'', [(''sku'', Field ''id'')]),
                   (''customAttributes'',
                      [(''brand'', Resolver (\<lambda>h s. Fulfils 0 (Str ''124''))),
                       (''description'', Field ''description_2'')])]
          [Obj [(''id'', Str ''X1''), (''description_2'', Str ''dd'')]] (Ref 0))) 3
   = Some [Some (Obj [(''attribute_code'', Str ''description''), (''value'', Str ''dd'')]),
           Some (Obj [(''attribute_code'', Str ''brand''), (''value'', Str ''124'')])]"
proof -
  let ?m = "[(''core'', [(''sku'', Field ''id'')]),
             (''customAttributes'',
                [(''brand'', Resolver (\<lambda>h s. Fulfils 0 (Str ''124''))),
                 (''description'', Field ''description_2'')])]"
  let ?h = "[Obj [(''id'', Str ''X1''), (''description_2'', Str ''dd'')]]"
  have p: "path_of ''core'' ''sku'' = [''product'', ''sku'']"
    by (simp add: path_of_def destinationPath_def stringToPath_def plain_def empty_key_def)
  have c: "closed ?h"
    by (simp add: closed_def fits_def)
  have s: "0 < length ?h"
    by simp
  have k: "\<forall>(k, i) \<in> set (section_entries ?m ''core''). key_ok ''core'' k"
    by (simp add: section_entries_def key_ok_def p)
  have i: "list_all ordinary (tasks ?m)"
    by (simp add: tasks_def sections_def section_entries_def p inherited_def
        object_prototype_keys_def array_prototype_keys_def)
  have r: "\<forall>(sec, k, i) \<in> set (tasks ?m). resolver_ok (length ?h) (Ref 0) i"
    by (simp add: tasks_def sections_def section_entries_def fits_def)
  have "attributes_in_loop ?m ?h (Ref 0) = [(''description'', Str ''dd'')]"
    by (simp add: attributes_in_loop_def attribute_def absent_def engine_defs)
  moreover have "attributes_awaited ?m ?h (Ref 0) = [(''brand'', Str ''124'')]"
    by (simp add: attributes_awaited_def attribute_def absent_def engine_defs)
  ultimately show ?thesis
    using custom_attributes_commit_order [OF c s k i r]
    by (simp add: attribute_record_def payload_of_def numeral_3_eq_3)
qed

end
